theory Spec2Isabelle
  imports Complex_Main "HOL-Library.Multiset"
begin

section \<open>The CIT actor scheduler: data model\<close>

text \<open>
  The development embeds \<^verbatim>\<open>src/scheduler.js\<close>. JavaScript objects used as dictionaries
  become maps, arrays become lists, \<^verbatim>\<open>null\<close>/\<^verbatim>\<open>undefined\<close> become \<open>None\<close>.
  A week key \<^verbatim>\<open>`week${wi}`\<close> is represented by its index \<open>wi\<close>.
  A function that can hit a \<^verbatim>\<open>TypeError\<close> (a property access on \<^verbatim>\<open>undefined\<close> or
  \<^verbatim>\<open>null\<close>, a call of something that is not a function) returns an \<open>option\<close>, with \<open>None\<close>
  for the thrown exception.
\<close>

type_synonym actor = string
type_synonym scenario = string
type_synonym date = string

datatype shift = AM | PM

datatype slotKey = slot1 | slot2 | slot3

definition SLOT_KEYS :: "slotKey list" where
  "SLOT_KEYS = [slot1, slot2, slot3]"

definition SHIFTS :: "shift list" where
  "SHIFTS = [AM, PM]"

text \<open>
  The dictionaries are plain objects, as an object literal or \<^verbatim>\<open>JSON.parse\<close> makes them: a map
  holds their own entries, and a lookup \<^verbatim>\<open>obj[key]\<close> of a key without an own entry reads
  \<^verbatim>\<open>Object.prototype\<close>. \<open>protoKeys\<close> are the property names found there; each of them yields a
  function, and \<^verbatim>\<open>__proto__\<close> yields the prototype object, so the value read is truthy and is
  neither an array nor a \<^verbatim>\<open>Set\<close>.

  Where the source does something else for such a key than for an absent one, the embedding
  says so at the definition: the approved list of a scenario (\<open>approvedIter\<close>, \<open>precompute\<close>)
  and the week-shift set of an actor (\<open>applyAssign\<close>) throw. Two places are left as they are for
  an absent key: the call \<^verbatim>\<open>actorScenarios.has\<close> in \<open>hasConflict\<close>, which throws for an actor
  named like this, and the cell of a scenario named \<^verbatim>\<open>__proto__\<close>, whose write sets the
  prototype or is ignored, so that the cell never holds a person. The embedding therefore
  returns whenever the run does, and its schedule then holds the persons of the run's
  schedule in the same cells. The theorems that state that the run returns, or that read
  whether a given cell is filled, exclude the names (\<open>plainActors\<close>, \<open>plainScenarios\<close>).
\<close>

definition protoKeys :: "string list" where
  "protoKeys = [''constructor'', ''__defineGetter__'', ''__defineSetter__'', ''hasOwnProperty'',
     ''__lookupGetter__'', ''__lookupSetter__'', ''isPrototypeOf'', ''propertyIsEnumerable'',
     ''toString'', ''valueOf'', ''__proto__'', ''toLocaleString'']"

text \<open>Raw availability values as they are stored: anything JSON can hold.\<close>

datatype jsval = JUndefined | JNull | JBool bool | JNum int | JStr string

text \<open>The four results of \<^verbatim>\<open>normalizeAvail\<close>: \<^verbatim>\<open>"both"\<close>, \<^verbatim>\<open>"am"\<close>, \<^verbatim>\<open>"pm"\<close>, \<^verbatim>\<open>false\<close>.\<close>

datatype norm = NBoth | NAm | NPm | NFalse

text \<open>
  Counters are JavaScript numbers that only ever hold integers or, when \<^verbatim>\<open>++\<close> is applied
  to a missing entry, \<^verbatim>\<open>NaN\<close>.
\<close>

datatype jsnum = Num int | NaN

type_synonym counter = "actor \<rightharpoonup> jsnum"

record constraint =
  allowedDays :: "string list option"
  maxPMRatio :: "rat option"
  preferAM :: bool

record conflictRule =
  actor_cannot_play :: "scenario list option"
  scope :: string

record config =
  actors :: "actor list"
  scenarioActors :: "scenario \<rightharpoonup> actor list"
  slotScenarios :: "slotKey \<rightharpoonup> scenario list"
  conflicts :: "conflictRule list option"
  actorConstraints :: "(actor \<rightharpoonup> constraint) option"
  defaultDays :: "slotKey \<rightharpoonup> string"

record weekDay =
  wd_date :: date
  dayName :: string
  dow :: nat

type_synonym weekPlan = "slotKey \<Rightarrow> date option"

text \<open>
  The built-ins of the JavaScript runtime the scheduler calls are parameters:
  \<open>getDay d\<close> is \<^verbatim>\<open>new Date(y, m - 1, d).getDay()\<close> on the split date string (\<open>None\<close> for
  \<^verbatim>\<open>NaN\<close>), \<open>fmtMD d\<close> is the text \<^verbatim>\<open>`${m}/${d}`\<close>, \<open>roundPct r\<close> is the text of
  \<^verbatim>\<open>Math.round(r * 100)\<close>, and \<open>divGe p u r\<close> is the IEEE comparison \<^verbatim>\<open>p / u >= r\<close>.
  \<open>sortCode cmp xs\<close> stands for the engine's \<^verbatim>\<open>Array.prototype.sort\<close> on a comparator that is
  not consistent: it names the permutation the engine returns (see \<open>permOf\<close>).
\<close>

record env =
  getDay :: "date \<Rightarrow> nat option"
  fmtMD :: "date \<Rightarrow> string"
  roundPct :: "rat \<Rightarrow> string"
  divGe :: "int \<Rightarrow> int \<Rightarrow> rat \<Rightarrow> bool"
  sortCode :: "(actor \<Rightarrow> actor \<Rightarrow> jsnum) \<Rightarrow> actor list \<Rightarrow> nat"

text \<open>The four arguments of \<^verbatim>\<open>generateSchedule\<close>, together with the runtime.\<close>

record inp =
  i_env :: env
  weeks :: "weekDay list list"
  weekPlans :: "nat \<rightharpoonup> weekPlan"
  availability :: "date \<rightharpoonup> (actor \<rightharpoonup> jsval)"
  cfg :: config

record slot =
  s_wi :: nat
  s_slotKey :: slotKey
  s_shift :: shift
  s_scenario :: scenario
  s_date :: date

text \<open>One training day of the schedule: \<^verbatim>\<open>{ date, AM: {...}, PM: {...} }\<close>.\<close>

record day =
  d_date :: date
  d_cells :: "shift \<Rightarrow> scenario \<rightharpoonup> actor option"

type_synonym sched = "nat \<rightharpoonup> (slotKey \<Rightarrow> day option)"

record state =
  schedule :: sched
  wa :: "nat \<rightharpoonup> (shift \<Rightarrow> actor \<rightharpoonup> scenario list)"
  usageCount :: counter
  pmCount :: counter
  backtrackCount :: nat

record diagnostic =
  e_slot :: string
  e_scenario :: scenario
  e_shift :: shift
  e_date :: date
  e_weekKey :: nat
  e_slotKey :: slotKey
  e_approvedActors :: "actor list"
  e_eliminations :: "(actor \<times> string) list"
  e_suggestion :: string

record result =
  r_schedule :: sched
  r_errors :: "diagnostic list"

section \<open>Availability helpers\<close>

definition normalizeAvail :: "jsval \<Rightarrow> norm" where
  "normalizeAvail val =
     (if val = JBool True \<or> val = JStr ''both'' then NBoth
      else if val = JStr ''am'' then NAm
      else if val = JStr ''pm'' then NPm
      else NFalse)"

definition isAvailableForShift :: "jsval \<Rightarrow> shift \<Rightarrow> bool" where
  "isAvailableForShift availValue sh =
     (let nrm = normalizeAvail availValue in
      if nrm = NFalse then False
      else if nrm = NBoth then True
      else (nrm = NAm \<and> sh = AM) \<or> (nrm = NPm \<and> sh = PM))"

section \<open>Text helpers\<close>

definition DAYS_SHORT :: "string list" where
  "DAYS_SHORT = [''Sun'', ''Mon'', ''Tue'', ''Wed'', ''Thu'', ''Fri'', ''Sat'']"

definition DAYS_LONG :: "string list" where
  "DAYS_LONG = [''Sunday'', ''Monday'', ''Tuesday'', ''Wednesday'', ''Thursday'',
                ''Friday'', ''Saturday'']"

definition digit_char :: "nat \<Rightarrow> char" where
  "digit_char d = ''0123456789'' ! d"

fun show_nat :: "nat \<Rightarrow> string" where
  "show_nat n = (if n < 10 then [digit_char n] else show_nat (n div 10) @ [digit_char (n mod 10)])"

declare show_nat.simps [simp del]

fun join :: "string \<Rightarrow> string list \<Rightarrow> string" where
  "join sep [] = []"
| "join sep [x] = x"
| "join sep (x # y # ys) = x @ sep @ join sep (y # ys)"

definition show_shift :: "shift \<Rightarrow> string" where
  "show_shift sh = (case sh of AM \<Rightarrow> ''AM'' | PM \<Rightarrow> ''PM'')"

text \<open>\<^verbatim>\<open>DAYS_LONG[new Date(...).getDay()]\<close>: \<open>None\<close> is \<^verbatim>\<open>undefined\<close>.\<close>

definition dayLong :: "env \<Rightarrow> date \<Rightarrow> string option" where
  "dayLong E d = (case getDay E d of None \<Rightarrow> None
                  | Some n \<Rightarrow> if n < 7 then Some (DAYS_LONG ! n) else None)"

definition fmtDateShort :: "env \<Rightarrow> date \<Rightarrow> string" where
  "fmtDateShort E d =
     (case getDay E d of None \<Rightarrow> ''undefined''
      | Some n \<Rightarrow> if n < 7 then DAYS_SHORT ! n else ''undefined'') @ '' '' @ fmtMD E d"

section \<open>Week plans\<close>

text \<open>\<^verbatim>\<open>weekDays.find(wd => wd.dayName === targetDay)\<close>, then its date or \<^verbatim>\<open>null\<close>.\<close>

definition getDefaultWeekPlan :: "weekDay list \<Rightarrow> config \<Rightarrow> weekPlan" where
  "getDefaultWeekPlan weekDays c =
     (\<lambda>slotKey. case List.find (\<lambda>wd. Some (dayName wd) = defaultDays c slotKey) weekDays of
                  None \<Rightarrow> None
                | Some m \<Rightarrow> Some (wd_date m))"

text \<open>\<^verbatim>\<open>weekPlans[weekKey] || getDefaultWeekPlan(weeks[wi], config)\<close>.\<close>

definition planOf :: "inp \<Rightarrow> nat \<Rightarrow> weekPlan" where
  "planOf I wi = (case weekPlans I wi of Some wp \<Rightarrow> wp
                  | None \<Rightarrow> getDefaultWeekPlan (weeks I ! wi) (cfg I))"

text \<open>The date of a slot, \<open>None\<close> when \<^verbatim>\<open>!date\<close> holds (null, undefined or the empty string).\<close>

definition activeDate :: "inp \<Rightarrow> nat \<Rightarrow> slotKey \<Rightarrow> date option" where
  "activeDate I wi sk = (case planOf I wi sk of None \<Rightarrow> None
                         | Some d \<Rightarrow> if d = [] then None else Some d)"

text \<open>\<^verbatim>\<open>slotScenarios[slotKey] || []\<close>; the slot keys are not names of \<^verbatim>\<open>Object.prototype\<close>.\<close>

definition scenariosOf :: "inp \<Rightarrow> slotKey \<Rightarrow> scenario list" where
  "scenariosOf I sk = (case slotScenarios (cfg I) sk of None \<Rightarrow> [] | Some l \<Rightarrow> l)"

text \<open>
  \<^verbatim>\<open>scenarioActors[scenario] || []\<close> as the loops and array methods of the source use it:
  \<open>approvedIter\<close> is the array they run over, and \<open>None\<close> when the scenario has no own entry
  and is named like a property of \<^verbatim>\<open>Object.prototype\<close>, where \<^verbatim>\<open>for ... of\<close>, \<^verbatim>\<open>.filter\<close> and
  \<^verbatim>\<open>.flatMap\<close> throw. The first use is the loop of \<open>precompute\<close>, which visits every scenario
  of every active day; after it \<open>approvedOf\<close> is that array.
\<close>

definition approvedIter :: "inp \<Rightarrow> scenario \<Rightarrow> actor list option" where
  "approvedIter I sc =
     (case scenarioActors (cfg I) sc of
        None \<Rightarrow> if sc \<in> set protoKeys then None else Some []
      | Some l \<Rightarrow> Some l)"

definition approvedOf :: "inp \<Rightarrow> scenario \<Rightarrow> actor list" where
  "approvedOf I sc = (case scenarioActors (cfg I) sc of None \<Rightarrow> [] | Some l \<Rightarrow> l)"

text \<open>\<^verbatim>\<open>(availability[date] || {})[actor]\<close>.\<close>

definition dayAvailOf :: "inp \<Rightarrow> date \<Rightarrow> actor \<Rightarrow> jsval" where
  "dayAvailOf I d a = (case availability I d of None \<Rightarrow> JUndefined
                       | Some m \<Rightarrow> (case m a of None \<Rightarrow> JUndefined | Some v \<Rightarrow> v))"

text \<open>\<^verbatim>\<open>config.actorConstraints?.[actor]\<close>.\<close>

definition constraintOf :: "inp \<Rightarrow> actor \<Rightarrow> constraint option" where
  "constraintOf I a = (case actorConstraints (cfg I) of None \<Rightarrow> None | Some m \<Rightarrow> m a)"

text \<open>
  The day restriction, written three times in the source:
  \<^verbatim>\<open>ac?.allowedDays?.length > 0 && !ac.allowedDays.includes(DAYS_LONG[...getDay()])\<close>.
\<close>

definition dayNotAllowed :: "inp \<Rightarrow> actor \<Rightarrow> date \<Rightarrow> bool" where
  "dayNotAllowed I a d =
     (case constraintOf I a of None \<Rightarrow> False
      | Some ac \<Rightarrow> (case allowedDays ac of None \<Rightarrow> False
          | Some ds \<Rightarrow> length ds > 0 \<and>
              (case dayLong (i_env I) d of None \<Rightarrow> True | Some n \<Rightarrow> n \<notin> set ds)))"

section \<open>Counters\<close>

text \<open>\<^verbatim>\<open>c[a]++\<close> and \<^verbatim>\<open>c[a]--\<close>; on a missing entry the result is \<^verbatim>\<open>NaN\<close>.\<close>

definition incr :: "counter \<Rightarrow> actor \<Rightarrow> counter" where
  "incr c a = c(a \<mapsto> (case c a of Some (Num n) \<Rightarrow> Num (n + 1) | _ \<Rightarrow> NaN))"

definition decr :: "counter \<Rightarrow> actor \<Rightarrow> counter" where
  "decr c a = c(a \<mapsto> (case c a of Some (Num n) \<Rightarrow> Num (n - 1) | _ \<Rightarrow> NaN))"

text \<open>\<^verbatim>\<open>Object.fromEntries(config.actors.map(a => [a, 0]))\<close>.\<close>

definition zeroCounts :: "actor list \<Rightarrow> counter" where
  "zeroCounts as = map_of (map (\<lambda>a. (a, Num 0)) as)"

text \<open>\<^verbatim>\<open>x - y\<close> on two counter entries.\<close>

definition jsub :: "jsnum option \<Rightarrow> jsnum option \<Rightarrow> jsnum" where
  "jsub x y = (case (x, y) of (Some (Num a), Some (Num b)) \<Rightarrow> Num (a - b) | _ \<Rightarrow> NaN)"

section \<open>Sorting\<close>

text \<open>
  \<^verbatim>\<open>Array.prototype.sort\<close> with a comparator is a stable sort; a comparator result of
  \<^verbatim>\<open>NaN\<close> counts as \<open>0\<close>. For a consistent comparator the result is fixed by the language
  definition and is the one of this insertion sort, \<open>js_sort\<close>. A comparator that returns
  \<^verbatim>\<open>NaN\<close> for some pair is not consistent, and the language leaves the order to the engine:
  the result is then the permutation \<open>permOf n\<close> for the number \<open>n\<close> the runtime gives. Every
  permutation of a list is \<open>permOf n\<close> of it for some \<open>n\<close>, and \<open>permOf 0\<close> leaves it as it is.
\<close>

definition cmp_pos :: "jsnum \<Rightarrow> bool" where
  "cmp_pos v = (case v of Num n \<Rightarrow> n > 0 | NaN \<Rightarrow> False)"

fun js_insort :: "('a \<Rightarrow> 'a \<Rightarrow> jsnum) \<Rightarrow> 'a \<Rightarrow> 'a list \<Rightarrow> 'a list" where
  "js_insort cmp x [] = [x]"
| "js_insort cmp x (y # ys) = (if cmp_pos (cmp x y) then y # js_insort cmp x ys else x # y # ys)"

definition js_sort :: "('a \<Rightarrow> 'a \<Rightarrow> jsnum) \<Rightarrow> 'a list \<Rightarrow> 'a list" where
  "js_sort cmp xs = foldr (js_insort cmp) xs []"

definition insertAt :: "nat \<Rightarrow> 'a \<Rightarrow> 'a list \<Rightarrow> 'a list" where
  "insertAt i x ys = take i ys @ x # drop i ys"

fun permOf :: "nat \<Rightarrow> 'a list \<Rightarrow> 'a list" where
  "permOf n [] = []"
| "permOf n (x # xs) = insertAt (n mod (length xs + 1)) x (permOf (n div (length xs + 1)) xs)"

section \<open>Eligibility profile, slot list and skeleton\<close>

definition eligibleStep :: "inp \<Rightarrow> date \<Rightarrow> shift \<Rightarrow> actor \<Rightarrow> counter \<Rightarrow> counter" where
  "eligibleStep I edate eshift a ec =
     (if \<not> isAvailableForShift (dayAvailOf I edate a) eshift then ec
      else if dayNotAllowed I a edate then ec
      else incr ec a)"

definition eligibleCount :: "inp \<Rightarrow> counter" where
  "eligibleCount I =
     fold (\<lambda>ewi ec.
       fold (\<lambda>esk ec.
         case activeDate I ewi esk of None \<Rightarrow> ec
         | Some edate \<Rightarrow>
             fold (\<lambda>eshift ec.
               fold (\<lambda>escenario ec.
                 fold (eligibleStep I edate eshift) (approvedOf I escenario) ec)
               (scenariosOf I esk) ec)
             SHIFTS ec)
       SLOT_KEYS ec)
     [0..<length (weeks I)] (zeroCounts (actors (cfg I)))"

text \<open>
  The loop that fills \<^verbatim>\<open>eligibleCount\<close>, with its exception: \<^verbatim>\<open>for (const actor of
  scenarioActors[escenario] || [])\<close> throws when the value is not an array. When the loop
  completes, the counts are those of \<open>eligibleCount\<close> (\<open>precompute_eq\<close>).
\<close>

fun foldM :: "('a \<Rightarrow> 'b \<Rightarrow> 'b option) \<Rightarrow> 'a list \<Rightarrow> 'b \<Rightarrow> 'b option" where
  "foldM f [] s = Some s"
| "foldM f (x # xs) s = (case f x s of None \<Rightarrow> None | Some s' \<Rightarrow> foldM f xs s')"

definition precompute :: "inp \<Rightarrow> counter option" where
  "precompute I =
     foldM (\<lambda>ewi ec.
       foldM (\<lambda>esk ec.
         case activeDate I ewi esk of None \<Rightarrow> Some ec
         | Some edate \<Rightarrow>
             foldM (\<lambda>eshift ec.
               foldM (\<lambda>escenario ec.
                 case approvedIter I escenario of None \<Rightarrow> None
                 | Some approved \<Rightarrow> Some (fold (eligibleStep I edate eshift) approved ec))
               (scenariosOf I esk) ec)
             SHIFTS ec)
       SLOT_KEYS ec)
     [0..<length (weeks I)] (zeroCounts (actors (cfg I)))"

definition daySlots :: "inp \<Rightarrow> nat \<Rightarrow> slotKey \<Rightarrow> slot list" where
  "daySlots I wi sk =
     (case activeDate I wi sk of None \<Rightarrow> []
      | Some d \<Rightarrow> concat (map (\<lambda>sh. map (\<lambda>sc.
          \<lparr>s_wi = wi, s_slotKey = sk, s_shift = sh, s_scenario = sc, s_date = d\<rparr>)
          (scenariosOf I sk)) SHIFTS))"

definition allSlots :: "inp \<Rightarrow> slot list" where
  "allSlots I = concat (map (\<lambda>wi. concat (map (daySlots I wi) SLOT_KEYS)) [0..<length (weeks I)])"

definition skeleton :: "inp \<Rightarrow> sched" where
  "skeleton I = (\<lambda>wi. if wi < length (weeks I)
      then Some (\<lambda>sk. case activeDate I wi sk of None \<Rightarrow> None
             | Some d \<Rightarrow> Some \<lparr>d_date = d,
                 d_cells = (\<lambda>sh. fold (\<lambda>sc m. m(sc \<mapsto> None)) (scenariosOf I sk) Map.empty)\<rparr>)
      else None)"

section \<open>Search state\<close>

definition freshState :: "inp \<Rightarrow> state" where
  "freshState I = \<lparr>schedule = skeleton I, wa = Map.empty,
     usageCount = zeroCounts (actors (cfg I)), pmCount = zeroCounts (actors (cfg I)),
     backtrackCount = 0\<rparr>"

text \<open>\<^verbatim>\<open>state.schedule[weekKey][slotKey][shift][scenario] = v\<close>; a missing week or a
  canceled day makes the assignment throw. The cell is an own property for every scenario
  name but \<^verbatim>\<open>__proto__\<close>, for which the source has no cell (see \<open>plainScenarios\<close>).\<close>

definition setCell :: "sched \<Rightarrow> slot \<Rightarrow> actor option \<Rightarrow> sched option" where
  "setCell s sl v =
     (case s (s_wi sl) of None \<Rightarrow> None
      | Some wv \<Rightarrow> (case wv (s_slotKey sl) of None \<Rightarrow> None
          | Some d \<Rightarrow> Some (s(s_wi sl \<mapsto> wv(s_slotKey sl :=
              Some (d\<lparr>d_cells := (d_cells d)(s_shift sl := (d_cells d (s_shift sl))(s_scenario sl \<mapsto> v))\<rparr>))))))"

text \<open>Reading one cell of a schedule: the person held there, \<open>None\<close> for \<^verbatim>\<open>null\<close> or absent.\<close>

definition getCell :: "sched \<Rightarrow> nat \<Rightarrow> slotKey \<Rightarrow> shift \<Rightarrow> scenario \<Rightarrow> actor option" where
  "getCell s wi sk sh sc =
     (case s wi of None \<Rightarrow> None
      | Some wv \<Rightarrow> (case wv sk of None \<Rightarrow> None
          | Some d \<Rightarrow> (case d_cells d sh sc of None \<Rightarrow> None | Some v \<Rightarrow> v)))"

text \<open>\<^verbatim>\<open>state.wa[weekKey] || { AM: {}, PM: {} }\<close>.\<close>

definition weekAssign :: "state \<Rightarrow> nat \<Rightarrow> shift \<Rightarrow> actor \<rightharpoonup> scenario list" where
  "weekAssign st wi = (case wa st wi of None \<Rightarrow> (\<lambda>sh. Map.empty) | Some w \<Rightarrow> w)"

text \<open>\<^verbatim>\<open>w[shift][actor]?.size > 0\<close>.\<close>

definition usedIn :: "(shift \<Rightarrow> actor \<rightharpoonup> scenario list) \<Rightarrow> shift \<Rightarrow> actor \<Rightarrow> bool" where
  "usedIn w sh a = (case w sh a of None \<Rightarrow> False | Some scs \<Rightarrow> length scs > 0)"

text \<open>A JavaScript \<^verbatim>\<open>Set\<close> is a duplicate-free list in insertion order.\<close>

definition set_add :: "'a list \<Rightarrow> 'a \<Rightarrow> 'a list" where
  "set_add xs x = (if x \<in> set xs then xs else xs @ [x])"

text \<open>
  \<^verbatim>\<open>if (!w[shift][actor]) w[shift][actor] = new Set(); w[shift][actor].add(scenario)\<close>: for an
  actor named like a property of \<^verbatim>\<open>Object.prototype\<close> the value read is the inherited one, no
  \<^verbatim>\<open>Set\<close> is made, and \<^verbatim>\<open>.add\<close> throws. Such an actor never has an own entry in \<^verbatim>\<open>w[shift]\<close>.
\<close>

definition applyAssign :: "state \<Rightarrow> slot \<Rightarrow> actor \<Rightarrow> state option" where
  "applyAssign st sl a =
     (case setCell (schedule st) sl (Some a) of None \<Rightarrow> None
      | Some s' \<Rightarrow>
          if a \<in> set protoKeys then None else
          let w = weekAssign st (s_wi sl);
              cur = (case w (s_shift sl) a of None \<Rightarrow> [] | Some scs \<Rightarrow> scs);
              w' = w(s_shift sl := (w (s_shift sl))(a \<mapsto> set_add cur (s_scenario sl)))
          in Some (st\<lparr>schedule := s', wa := (wa st)(s_wi sl \<mapsto> w'),
                      usageCount := incr (usageCount st) a,
                      pmCount := (if s_shift sl = PM then incr (pmCount st) a else pmCount st)\<rparr>))"

definition undoAssign :: "state \<Rightarrow> slot \<Rightarrow> actor \<Rightarrow> state option" where
  "undoAssign st sl a =
     (case setCell (schedule st) sl None of None \<Rightarrow> None
      | Some s' \<Rightarrow>
         (case wa st (s_wi sl) of None \<Rightarrow> None
          | Some w \<Rightarrow>
             (case w (s_shift sl) a of None \<Rightarrow> None
              | Some scs \<Rightarrow>
                  let scs' = removeAll (s_scenario sl) scs;
                      w' = w(s_shift sl := (if length scs' = 0 then (w (s_shift sl))(a := None)
                                            else (w (s_shift sl))(a \<mapsto> scs')))
                  in Some (st\<lparr>schedule := s', wa := (wa st)(s_wi sl \<mapsto> w'),
                              usageCount := decr (usageCount st) a,
                              pmCount := (if s_shift sl = PM then decr (pmCount st) a
                                          else pmCount st)\<rparr>))))"

section \<open>Constraint filter and ranking\<close>

text \<open>
  \<open>hasConflict\<close> of the source. For an actor named like a property of \<^verbatim>\<open>Object.prototype\<close>
  without an own entry, \<^verbatim>\<open>weekAssignments[shift][actor]\<close> is the inherited value and the source
  throws at \<^verbatim>\<open>actorScenarios.has\<close> once a rule's pair holds the scenario and another one;
  the definition answers as for an absent entry (see \<open>plainActors\<close>).
\<close>

definition hasConflict ::
  "actor \<Rightarrow> scenario \<Rightarrow> shift \<Rightarrow> (shift \<Rightarrow> actor \<rightharpoonup> scenario list) \<Rightarrow> conflictRule list option \<Rightarrow> bool"
where
  "hasConflict a sc sh weekAssignments cs =
     (case cs of None \<Rightarrow> False
      | Some rules \<Rightarrow>
          if length rules = 0 then False
          else (case weekAssignments sh a of None \<Rightarrow> False
            | Some actorScenarios \<Rightarrow>
                if length actorScenarios = 0 then False
                else list_ex (\<lambda>rule.
                       scope rule = ''same_shift'' \<and>
                       (case actor_cannot_play rule of None \<Rightarrow> False
                        | Some pair \<Rightarrow> \<not> length pair < 2 \<and> sc \<in> set pair \<and>
                            list_ex (\<lambda>otherScenario. otherScenario \<noteq> sc \<and>
                                       otherScenario \<in> set actorScenarios) pair)) rules))"

text \<open>The evening cap: \<^verbatim>\<open>shift === 'PM' && ac?.maxPMRatio != null\<close> and the two tests under it.\<close>

definition pmCapped :: "inp \<Rightarrow> state \<Rightarrow> actor \<Rightarrow> shift \<Rightarrow> bool" where
  "pmCapped I st a sh =
     (sh = PM \<and>
      (case constraintOf I a of None \<Rightarrow> False
       | Some ac \<Rightarrow> (case maxPMRatio ac of None \<Rightarrow> False
           | Some r \<Rightarrow> r = 0 \<or>
               (case usageCount st a of
                  Some (Num u) \<Rightarrow> u > 0 \<and>
                     (case pmCount st a of Some (Num p) \<Rightarrow> divGe (i_env I) p u r | _ \<Rightarrow> False)
                | _ \<Rightarrow> False))))"

definition eligible :: "inp \<Rightarrow> slot \<Rightarrow> state \<Rightarrow> nat \<Rightarrow> actor \<Rightarrow> bool" where
  "eligible I sl st relaxLevel a =
     (let w = weekAssign st (s_wi sl) in
      if \<not> isAvailableForShift (dayAvailOf I (s_date sl) a) (s_shift sl) then False
      else if usedIn w (s_shift sl) a then False
      else if relaxLevel < 3 \<and> hasConflict a (s_scenario sl) (s_shift sl) w (conflicts (cfg I))
        then False
      else if relaxLevel < 2 \<and> dayNotAllowed I a (s_date sl) then False
      else if relaxLevel < 1 \<and> pmCapped I st a (s_shift sl) then False
      else True)"

definition getEligible :: "inp \<Rightarrow> slot \<Rightarrow> state \<Rightarrow> nat \<Rightarrow> actor list" where
  "getEligible I sl st relaxLevel = filter (eligible I sl st relaxLevel) (approvedOf I (s_scenario sl))"

definition prefFlag :: "inp \<Rightarrow> actor \<Rightarrow> int" where
  "prefFlag I a = (case constraintOf I a of None \<Rightarrow> 0 | Some ac \<Rightarrow> if preferAM ac then 1 else 0)"

definition rankCmp :: "inp \<Rightarrow> counter \<Rightarrow> shift \<Rightarrow> state \<Rightarrow> actor \<Rightarrow> actor \<Rightarrow> jsnum" where
  "rankCmp I ec sh st a b =
     (let ud = jsub (usageCount st a) (usageCount st b) in
      if ud \<noteq> Num 0 then ud
      else if sh = PM \<and> prefFlag I a \<noteq> prefFlag I b then Num (prefFlag I a - prefFlag I b)
      else jsub (ec a) (ec b))"

text \<open>
  \<^verbatim>\<open>[...candidates].sort(...)\<close>. The comparator is consistent exactly when the usage and
  eligibility entries of all candidates are numbers: it then never returns \<^verbatim>\<open>NaN\<close> and compares
  lexicographically; otherwise already \<^verbatim>\<open>cmp(a, a)\<close> is \<^verbatim>\<open>NaN\<close> for some candidate.
\<close>

definition isNum :: "jsnum option \<Rightarrow> bool" where
  "isNum x = (case x of Some (Num n) \<Rightarrow> True | _ \<Rightarrow> False)"

definition rankCandidates :: "inp \<Rightarrow> counter \<Rightarrow> actor list \<Rightarrow> shift \<Rightarrow> state \<Rightarrow> actor list" where
  "rankCandidates I ec candidates sh st =
     (if list_all (\<lambda>a. isNum (usageCount st a) \<and> isNum (ec a)) candidates
      then js_sort (rankCmp I ec sh st) candidates
      else permOf (sortCode (i_env I) (rankCmp I ec sh st) candidates) candidates)"

section \<open>Backtracking search\<close>

text \<open>The MRV scan: the first index from \<open>idx\<close> on with the fewest eligible candidates
  (\<open>None\<close> is \<^verbatim>\<open>Infinity\<close>).\<close>

definition mrvStep :: "inp \<Rightarrow> nat \<Rightarrow> state \<Rightarrow> slot list \<Rightarrow> nat \<Rightarrow> nat \<times> nat option \<Rightarrow> nat \<times> nat option" where
  "mrvStep I relaxLevel st slots i acc =
     (let cnt = length (getEligible I (slots ! i) st relaxLevel) in
      case snd acc of None \<Rightarrow> (i, Some cnt)
      | Some mrvCount \<Rightarrow> if cnt < mrvCount then (i, Some cnt) else acc)"

definition mrvIndex :: "inp \<Rightarrow> nat \<Rightarrow> state \<Rightarrow> slot list \<Rightarrow> nat \<Rightarrow> nat" where
  "mrvIndex I relaxLevel st slots idx =
     fst (fold (mrvStep I relaxLevel st slots) [idx..<length slots] (idx, None))"

text \<open>\<^verbatim>\<open>[slots[idx], slots[mrvIdx]] = [slots[mrvIdx], slots[idx]]\<close>.\<close>

definition swapSlots :: "slot list \<Rightarrow> nat \<Rightarrow> nat \<Rightarrow> slot list" where
  "swapSlots slots i j = (slots[i := slots ! j])[j := slots ! i]"

text \<open>The forward check over the positions after \<open>idx\<close>.\<close>

definition forwardOk :: "inp \<Rightarrow> nat \<Rightarrow> state \<Rightarrow> slot list \<Rightarrow> nat \<Rightarrow> bool" where
  "forwardOk I relaxLevel st slots idx =
     list_all (\<lambda>sl. getEligible I sl st relaxLevel \<noteq> []) (drop (idx + 1) slots)"

text \<open>
  \<open>backtrack\<close> returns the boolean of the source together with the array and the state as
  the call leaves them; \<open>tryCandidates\<close> is its \<^verbatim>\<open>for (const actor of candidates)\<close> loop
  with the swap-back and \<^verbatim>\<open>return false\<close> that follow it. A call with \<open>idx\<close> beyond the
  array reads \<^verbatim>\<open>undefined\<close> as its slot and throws.
\<close>

function backtrack ::
    "inp \<Rightarrow> counter \<Rightarrow> nat \<Rightarrow> slot list \<Rightarrow> nat \<Rightarrow> state \<Rightarrow> (bool \<times> slot list \<times> state) option"
  and tryCandidates ::
    "inp \<Rightarrow> counter \<Rightarrow> nat \<Rightarrow> slot list \<Rightarrow> nat \<Rightarrow> nat \<Rightarrow> slot \<Rightarrow> actor list \<Rightarrow> state
       \<Rightarrow> (bool \<times> slot list \<times> state) option"
where
  "backtrack I ec relaxLevel slots idx st =
     (if idx = length slots then Some (True, slots, st)
      else let st1 = st\<lparr>backtrackCount := backtrackCount st + 1\<rparr> in
        if backtrackCount st1 > 50000 then Some (False, slots, st1)
        else if idx > length slots then None
        else let mrvIdx = mrvIndex I relaxLevel st1 slots idx;
                 slots1 = swapSlots slots idx mrvIdx;
                 sl = slots1 ! idx;
                 candidates = rankCandidates I ec (getEligible I sl st1 relaxLevel) (s_shift sl) st1
             in if length candidates = 0 then Some (False, swapSlots slots1 idx mrvIdx, st1)
                else tryCandidates I ec relaxLevel slots1 idx mrvIdx sl candidates st1)"
| "tryCandidates I ec relaxLevel slots idx mrvIdx sl [] st =
     Some (False, swapSlots slots idx mrvIdx, st)"
| "tryCandidates I ec relaxLevel slots idx mrvIdx sl (a # as) st =
     (case applyAssign st sl a of None \<Rightarrow> None
      | Some st1 \<Rightarrow>
          if forwardOk I relaxLevel st1 slots idx
          then (case backtrack I ec relaxLevel slots (idx + 1) st1 of None \<Rightarrow> None
                | Some (b, slots', st2) \<Rightarrow>
                    if b then Some (True, slots', st2)
                    else (case undoAssign st2 sl a of None \<Rightarrow> None
                          | Some st3 \<Rightarrow> tryCandidates I ec relaxLevel slots' idx mrvIdx sl as st3))
          else (case undoAssign st1 sl a of None \<Rightarrow> None
                | Some st3 \<Rightarrow> tryCandidates I ec relaxLevel slots idx mrvIdx sl as st3))"
  by pat_completeness auto

section \<open>Relaxation levels and the greedy fallback\<close>

text \<open>\<^verbatim>\<open>candidateCount\<close>: approved and available for the shift.\<close>

definition candidateCount :: "inp \<Rightarrow> scenario \<Rightarrow> date \<Rightarrow> shift \<Rightarrow> nat" where
  "candidateCount I sc d sh =
     (case scenarioActors (cfg I) sc of None \<Rightarrow> 0
      | Some approved \<Rightarrow> length (filter (\<lambda>a. isAvailableForShift (dayAvailOf I d a) sh) approved))"

definition scenarioOrder :: "inp \<Rightarrow> slotKey \<Rightarrow> date \<Rightarrow> shift \<Rightarrow> scenario list" where
  "scenarioOrder I sk d sh =
     js_sort (\<lambda>a b. Num (int (candidateCount I a d sh) - int (candidateCount I b d sh)))
       (scenariosOf I sk)"

text \<open>\<^verbatim>\<open>explainElim\<close>: the first failing reason of an actor for a slot, \<open>None\<close> for
  \<^verbatim>\<open>null\<close>.\<close>

definition explainElim :: "inp \<Rightarrow> actor \<Rightarrow> slot \<Rightarrow> state \<Rightarrow> string option" where
  "explainElim I a sl st =
     (let w = weekAssign st (s_wi sl);
          ac = constraintOf I a;
          v = dayAvailOf I (s_date sl) a
      in
      if \<not> isAvailableForShift v (s_shift sl) then
        (let nrm = normalizeAvail v in
         if nrm \<noteq> NFalse
         then Some (''Only available '' @ (if nrm = NAm then ''AM'' else ''PM'') @ '' on '' @
                     fmtDateShort (i_env I) (s_date sl))
         else Some (''Not marked available on '' @ fmtDateShort (i_env I) (s_date sl)))
      else if usedIn w (s_shift sl) a then
        Some (''Already used in '' @ show_shift (s_shift sl) @ '' ('' @
              join '', '' (case w (s_shift sl) a of None \<Rightarrow> [] | Some scs \<Rightarrow> scs) @ '')'')
      else if dayNotAllowed I a (s_date sl) then
        Some (''Only available on '' @
              join ''/'' (case ac of None \<Rightarrow> []
                          | Some c \<Rightarrow> (case allowedDays c of None \<Rightarrow> [] | Some ds \<Rightarrow> ds)) @
              '' (this is '' @
              (case dayLong (i_env I) (s_date sl) of None \<Rightarrow> ''undefined'' | Some n \<Rightarrow> n) @ '')'')
      else if pmCapped I st a (s_shift sl) then
        (case ac of None \<Rightarrow> None
         | Some c \<Rightarrow> (case maxPMRatio c of None \<Rightarrow> None
             | Some r \<Rightarrow> if r = 0 then Some ''PM not permitted''
                         else Some (''PM cap reached ('' @ roundPct (i_env I) r @ ''% max)'')))
      else if hasConflict a (s_scenario sl) (s_shift sl) w (conflicts (cfg I)) then
        Some ''Conflict rule with already-assigned scenario''
      else None)"

text \<open>The \<^verbatim>\<open>suggestion\<close> text of a diagnostic record.\<close>

definition plural :: "int \<Rightarrow> string" where
  "plural n = (if n \<noteq> 1 then ''s'' else [])"

definition show_int :: "int \<Rightarrow> string" where
  "show_int i = (if i < 0 then ''-'' @ show_nat (nat (- i)) else show_nat (nat i))"

definition suggestionText :: "nat \<Rightarrow> int \<Rightarrow> scenario \<Rightarrow> string" where
  "suggestionText n filledCount sc =
     (if filledCount = 0
      then ''All '' @ show_nat n @ '' approved actor'' @ plural (int n) @
           '' blocked. Approve more actors for '' @ sc @ '' or adjust availability.''
      else show_int filledCount @ '' actor'' @ plural filledCount @
           '' eligible but already placed this shift. Approve more actors for '' @ sc @ ''.'')"

text \<open>\<^verbatim>\<open>approved.flatMap(actor => { const r = explainElim(...); return r ? [...] : [] })\<close>.\<close>

definition eliminationsOf :: "inp \<Rightarrow> slot \<Rightarrow> state \<Rightarrow> actor list \<Rightarrow> (actor \<times> string) list" where
  "eliminationsOf I sl st approved =
     concat (map (\<lambda>a. case explainElim I a sl st of None \<Rightarrow> []
                        | Some r \<Rightarrow> if r = [] then [] else [(a, r)]) approved)"

definition filledCountOf :: "inp \<Rightarrow> slot \<Rightarrow> state \<Rightarrow> int" where
  "filledCountOf I sl st =
     int (length (approvedOf I (s_scenario sl))) -
     int (length (eliminationsOf I sl st (approvedOf I (s_scenario sl))))"

definition diagnosticOf :: "inp \<Rightarrow> slot \<Rightarrow> state \<Rightarrow> diagnostic" where
  "diagnosticOf I sl st =
     (let approved = approvedOf I (s_scenario sl);
          eliminations = eliminationsOf I sl st approved
      in \<lparr>e_slot = ''Wk'' @ show_nat (s_wi sl + 1) @ '' '' @ fmtDateShort (i_env I) (s_date sl) @
                    '' '' @ show_shift (s_shift sl),
          e_scenario = s_scenario sl, e_shift = s_shift sl, e_date = s_date sl,
          e_weekKey = s_wi sl, e_slotKey = s_slotKey sl,
          e_approvedActors = approved, e_eliminations = eliminations,
          e_suggestion = suggestionText (length approved) (filledCountOf I sl st) (s_scenario sl)\<rparr>)"

text \<open>The body of the innermost fallback loop, for one scenario of a shift.\<close>

definition fbScenario ::
  "inp \<Rightarrow> counter \<Rightarrow> nat \<Rightarrow> slotKey \<Rightarrow> date \<Rightarrow> shift \<Rightarrow> scenario
     \<Rightarrow> state \<times> diagnostic list \<Rightarrow> (state \<times> diagnostic list) option"
where
  "fbScenario I ec wi sk d sh sc acc =
     (let fbState = fst acc; errors = snd acc;
          sl = \<lparr>s_wi = wi, s_slotKey = sk, s_shift = sh, s_scenario = sc, s_date = d\<rparr>;
          candidates = rankCandidates I ec (getEligible I sl fbState 0) sh fbState
      in if length candidates = 0 then Some (fbState, errors @ [diagnosticOf I sl fbState])
         else (case applyAssign fbState sl (hd candidates) of None \<Rightarrow> None
               | Some st' \<Rightarrow> Some (st', errors)))"

definition fbShift ::
  "inp \<Rightarrow> counter \<Rightarrow> nat \<Rightarrow> slotKey \<Rightarrow> date \<Rightarrow> shift
     \<Rightarrow> state \<times> diagnostic list \<Rightarrow> (state \<times> diagnostic list) option"
where
  "fbShift I ec wi sk d sh acc = foldM (fbScenario I ec wi sk d sh) (scenarioOrder I sk d sh) acc"

definition fbDay ::
  "inp \<Rightarrow> counter \<Rightarrow> nat \<Rightarrow> slotKey \<Rightarrow> state \<times> diagnostic list \<Rightarrow> (state \<times> diagnostic list) option"
where
  "fbDay I ec wi sk acc =
     (case activeDate I wi sk of None \<Rightarrow> Some acc
      | Some d \<Rightarrow> foldM (fbShift I ec wi sk d) SHIFTS acc)"

definition fbWeek ::
  "inp \<Rightarrow> counter \<Rightarrow> nat \<Rightarrow> state \<times> diagnostic list \<Rightarrow> (state \<times> diagnostic list) option"
where
  "fbWeek I ec wi acc = foldM (fbDay I ec wi) SLOT_KEYS acc"

definition fallback :: "inp \<Rightarrow> counter \<Rightarrow> result option" where
  "fallback I ec =
     (case foldM (fbWeek I ec) [0..<length (weeks I)] (freshState I, []) of None \<Rightarrow> None
      | Some acc \<Rightarrow> Some \<lparr>r_schedule = schedule (fst acc), r_errors = snd acc\<rparr>)"

text \<open>One attempt of the search: a fresh state and a copy of the slot list.\<close>

definition attempt :: "inp \<Rightarrow> counter \<Rightarrow> nat \<Rightarrow> (bool \<times> slot list \<times> state) option" where
  "attempt I ec relaxLevel = backtrack I ec relaxLevel (allSlots I) 0 (freshState I)"

text \<open>\<^verbatim>\<open>for (let relaxLevel = 0; relaxLevel <= 3; relaxLevel++)\<close>, then the fallback.\<close>

function relaxLoop :: "inp \<Rightarrow> counter \<Rightarrow> nat \<Rightarrow> result option" where
  "relaxLoop I ec relaxLevel =
     (if relaxLevel \<le> 3
      then (case attempt I ec relaxLevel of None \<Rightarrow> None
            | Some r \<Rightarrow> if fst r then Some \<lparr>r_schedule = schedule (snd (snd r)), r_errors = []\<rparr>
                        else relaxLoop I ec (relaxLevel + 1))
      else fallback I ec)"
  by pat_completeness auto
termination
  by (relation "measure (\<lambda>(I, ec, relaxLevel). 4 - relaxLevel)") auto

definition generateSchedule :: "inp \<Rightarrow> result option" where
  "generateSchedule I =
     (case precompute I of None \<Rightarrow> None | Some ec \<Rightarrow> relaxLoop I ec 0)"

section \<open>Termination of the search\<close>

lemma length_swapSlots [simp]: "length (swapSlots slots i j) = length slots"
  by (simp add: swapSlots_def)

lemma bt_length:
  "backtrack_tryCandidates_dom (Inl (I, ec, r, slots, idx, st)) \<Longrightarrow>
     backtrack I ec r slots idx st = Some (b, slots', st') \<Longrightarrow> length slots' = length slots"
  "backtrack_tryCandidates_dom (Inr (I, ec, r, slots, idx, m, sl, cands, st)) \<Longrightarrow>
     tryCandidates I ec r slots idx m sl cands st = Some (b, slots', st') \<Longrightarrow>
     length slots' = length slots"
proof (induct arbitrary: b slots' st' and b slots' st' rule: backtrack_tryCandidates.pinduct)
  case (1 I ec relaxLevel slots idx st)
  show ?case
    using "1.prems" "1.hyps"(2)
    by (auto simp add: backtrack.psimps[OF "1.hyps"(1)] Let_def split: if_splits)
next
  case (2 I ec relaxLevel slots idx mrvIdx sl st)
  then show ?case by (auto simp: tryCandidates.psimps)
next
  case (3 I ec relaxLevel slots idx mrvIdx sl a as st)
  note eq = "3.prems"[unfolded tryCandidates.psimps(2)[OF "3.hyps"(1)]]
  from eq obtain st1 where a1: "applyAssign st sl a = Some st1"
    by (auto split: option.splits)
  show ?case
  proof (cases "forwardOk I relaxLevel st1 slots idx")
    case True
    note fw = this
    from eq a1 fw obtain b2 sl2 st2 where
      bt: "backtrack I ec relaxLevel slots (idx + 1) st1 = Some (b2, sl2, st2)"
      by (auto split: option.splits)
    have len2: "length sl2 = length slots"
      using "3.hyps"(2)[OF a1 fw bt] .
    show ?thesis
    proof (cases b2)
      case True
      with eq a1 fw bt len2 show ?thesis by simp
    next
      case False
      from eq a1 fw bt False obtain st3 where
        u: "undoAssign st2 sl a = Some st3"
        and rest: "tryCandidates I ec relaxLevel sl2 idx mrvIdx sl as st3 = Some (b, slots', st')"
        by (auto split: option.splits)
      have "length slots' = length sl2"
        using "3.hyps"(3)[OF a1 fw bt refl refl False u rest] .
      with len2 show ?thesis by simp
    qed
  next
    case False
    from eq a1 False obtain st3 where
      u: "undoAssign st1 sl a = Some st3"
      and rest: "tryCandidates I ec relaxLevel slots idx mrvIdx sl as st3 = Some (b, slots', st')"
      by (auto split: option.splits)
    show ?thesis using "3.hyps"(4)[OF a1 False u rest] .
  qed
qed

termination backtrack
  apply (relation "inv_image (less_than <*lex*> less_than)
     (\<lambda>x. case x of
        Inl (I, ec, r, slots, idx, st) \<Rightarrow>
          (if idx < length slots then 2 * (length slots - idx) else 0, 0)
      | Inr (I, ec, r, slots, idx, m, sl, cands, st) \<Rightarrow>
          (if idx < length slots then 2 * (length slots - idx) - 1 else 1, length cands))")
proof goal_cases
  case 1
  show ?case by (intro wf_inv_image wf_lex_prod wf_less_than)
next
  case (2 I ec relaxLevel slots idx st x xa xb xc xd)
  then show ?case by (simp split: if_splits)
next
  case (3 I ec relaxLevel slots idx mrvIdx sl a as st x2)
  then show ?case by (auto split: if_splits)
next
  case (4 I ec relaxLevel slots idx mrvIdx sl a as st x2 x2a x y xa ya x2b)
  from 4(3,4,5) have "backtrack I ec relaxLevel slots (idx + 1) x2 = Some (x, xa, ya)" by simp
  from bt_length(1)[OF 4(8) this] show ?case by simp
next
  case (5 I ec relaxLevel slots idx mrvIdx sl a as st x2 x2a)
  then show ?case by simp
qed

section \<open>Availability normalisation\<close>

lemma normalizeAvail_cases:
  "normalizeAvail v = NBoth \<longleftrightarrow> v = JBool True \<or> v = JStr ''both''"
  "normalizeAvail v = NAm \<longleftrightarrow> v = JStr ''am''"
  "normalizeAvail v = NPm \<longleftrightarrow> v = JStr ''pm''"
  by (auto simp: normalizeAvail_def)

text \<open>
  Claim C8. \<open>normalizeAvail\<close> sends the boolean \<open>true\<close> and the string "both" to \<open>both\<close>,
  "am" to morning-only, "pm" to evening-only, and every other value (\<open>false\<close>, \<open>null\<close>,
  \<open>undefined\<close>, numbers, other strings) to unavailable; \<open>isAvailableForShift v sh\<close> holds
  exactly when the normalised value is \<open>both\<close> or is the one of the requested shift.
\<close>

theorem normalizeAvail_spec:
  "normalizeAvail (JBool True) = NBoth \<and> normalizeAvail (JStr ''both'') = NBoth \<and>
   normalizeAvail (JStr ''am'') = NAm \<and> normalizeAvail (JStr ''pm'') = NPm \<and>
   (v \<notin> {JBool True, JStr ''both'', JStr ''am'', JStr ''pm''} \<longrightarrow> normalizeAvail v = NFalse) \<and>
   isAvailableForShift w sh =
     (normalizeAvail w = NBoth \<or> (normalizeAvail w = NAm \<and> sh = AM) \<or>
      (normalizeAvail w = NPm \<and> sh = PM))"
  by (auto simp: normalizeAvail_def isAvailableForShift_def Let_def)

theorem normalizeAvail_spec_witness:
  "JStr ''AM'' \<notin> {JBool True, JStr ''both'', JStr ''am'', JStr ''pm''} \<and>
   normalizeAvail (JStr ''AM'') = NFalse \<and>
   normalizeAvail JNull = NFalse \<and> normalizeAvail (JBool False) = NFalse \<and>
   normalizeAvail JUndefined = NFalse \<and>
   isAvailableForShift (JStr ''pm'') PM \<and> \<not> isAvailableForShift (JStr ''pm'') AM \<and>
   isAvailableForShift (JBool True) AM \<and> \<not> isAvailableForShift (JNum 1) AM"
  using normalizeAvail_spec [of "JStr ''AM''" "JStr ''pm''" PM]
        normalizeAvail_spec [of JNull "JStr ''pm''" AM]
        normalizeAvail_spec [of "JBool False" "JBool True" AM]
        normalizeAvail_spec [of JUndefined "JNum 1" AM]
  by (simp add: normalizeAvail_def)

section \<open>Sorting lemmas\<close>


lemma mset_js_insort: "mset (js_insort cmp x ys) = add_mset x (mset ys)"
  by (induction ys) auto

lemma mset_js_sort: "mset (js_sort cmp xs) = mset xs"
  by (induction xs) (auto simp: js_sort_def mset_js_insort)

lemma mset_insertAt: "mset (insertAt i x ys) = add_mset x (mset ys)"
proof -
  have "mset (take i ys) + mset (drop i ys) = mset ys"
    by (metis append_take_drop_id mset_append)
  then show ?thesis by (simp add: insertAt_def)
qed

lemma mset_permOf: "mset (permOf n xs) = mset xs"
  by (induction xs arbitrary: n) (simp_all add: mset_insertAt)

lemma permOf_0: "permOf 0 xs = xs"
  by (induction xs) (simp_all add: insertAt_def)

lemma set_js_sort [simp]: "set (js_sort cmp xs) = set xs"
  by (metis mset_js_sort set_mset_mset)

section \<open>Ranking\<close>

text \<open>The ranking of the specification: usage first, then (evening only) the morning
  preference, then the eligibility count; each ascending.\<close>

definition numVal :: "jsnum option \<Rightarrow> int" where
  "numVal x = (case x of Some (Num n) \<Rightarrow> n | _ \<Rightarrow> 0)"

definition rankKey :: "inp \<Rightarrow> counter \<Rightarrow> shift \<Rightarrow> state \<Rightarrow> actor \<Rightarrow> int \<times> int \<times> int" where
  "rankKey I ec sh st a =
     (numVal (usageCount st a), if sh = PM then prefFlag I a else 0, numVal (ec a))"

definition keyLe :: "int \<times> int \<times> int \<Rightarrow> int \<times> int \<times> int \<Rightarrow> bool" where
  "keyLe k l = (fst k < fst l \<or> (fst k = fst l \<and>
                 (fst (snd k) < fst (snd l) \<or> (fst (snd k) = fst (snd l) \<and> snd (snd k) \<le> snd (snd l)))))"

lemma keyLe_refl: "keyLe k k"
  by (simp add: keyLe_def)

lemma keyLe_trans: "keyLe k l \<Longrightarrow> keyLe l m \<Longrightarrow> keyLe k m"
  by (auto simp: keyLe_def)

lemma keyLe_total: "keyLe k l \<or> keyLe l k"
  by (auto simp: keyLe_def)

lemma keyLe_antisym: "keyLe k l \<Longrightarrow> keyLe l k \<Longrightarrow> k = l"
  by (auto simp: keyLe_def prod_eq_iff)

lemma rankCmp_pos:
  assumes "isNum (usageCount st a)" "isNum (usageCount st b)" "isNum (ec a)" "isNum (ec b)"
  shows "cmp_pos (rankCmp I ec sh st a b) \<longleftrightarrow> \<not> keyLe (rankKey I ec sh st a) (rankKey I ec sh st b)"
  using assms
  by (auto simp: isNum_def numVal_def rankCmp_def rankKey_def keyLe_def jsub_def cmp_pos_def Let_def
           split: option.splits jsnum.splits)

text \<open>Insertion by a comparator that decides a total preorder on keys.\<close>

lemma sorted_js_insort:
  assumes "\<forall>y\<in>set ys. cmp_pos (cmp x y) \<longleftrightarrow> \<not> keyLe (f x) (f y)"
    and "sorted_wrt (\<lambda>a b. keyLe (f a) (f b)) ys"
  shows "sorted_wrt (\<lambda>a b. keyLe (f a) (f b)) (js_insort cmp x ys)"
  using assms
proof (induction ys)
  case Nil
  then show ?case by simp
next
  case (Cons y ys)
  show ?case
  proof (cases "cmp_pos (cmp x y)")
    case True
    with Cons.prems have "\<not> keyLe (f x) (f y)" by simp
    then have yx: "keyLe (f y) (f x)"
      using keyLe_total[of "f x" "f y"] by blast
    have "sorted_wrt (\<lambda>a b. keyLe (f a) (f b)) (js_insort cmp x ys)"
      using Cons by simp
    moreover have "\<forall>z\<in>set (js_insort cmp x ys). keyLe (f y) (f z)"
      using Cons.prems(2) yx by (auto simp flip: set_mset_mset simp: mset_js_insort)
    ultimately show ?thesis using True by simp
  next
    case False
    with Cons.prems have xy: "keyLe (f x) (f y)" by simp
    with Cons.prems(2) have "\<forall>z\<in>set ys. keyLe (f x) (f z)"
      using keyLe_trans by auto
    with xy Cons.prems(2) False show ?thesis by simp
  qed
qed

lemma stable_js_insort:
  assumes "\<forall>y\<in>set ys. cmp_pos (cmp x y) \<longleftrightarrow> \<not> keyLe (f x) (f y)"
  shows "filter (\<lambda>a. f a = k) (js_insort cmp x ys) = filter (\<lambda>a. f a = k) (x # ys)"
  using assms
proof (induction ys)
  case Nil
  then show ?case by simp
next
  case (Cons y ys)
  show ?case
  proof (cases "cmp_pos (cmp x y)")
    case True
    with Cons.prems have "\<not> keyLe (f x) (f y)" by simp
    then have "f x \<noteq> f y" using keyLe_refl by metis
    with True Cons show ?thesis by auto
  next
    case False
    then show ?thesis by simp
  qed
qed

lemma js_sort_stable_sort:
  assumes "\<forall>x\<in>set xs. \<forall>y\<in>set xs. cmp_pos (cmp x y) \<longleftrightarrow> \<not> keyLe (f x) (f y)"
  shows "sorted_wrt (\<lambda>a b. keyLe (f a) (f b)) (js_sort cmp xs) \<and>
         (\<forall>k. filter (\<lambda>a. f a = k) (js_sort cmp xs) = filter (\<lambda>a. f a = k) xs)"
  using assms
proof (induction xs)
  case Nil
  then show ?case by (simp add: js_sort_def)
next
  case (Cons x xs)
  have eq: "js_sort cmp (x # xs) = js_insort cmp x (js_sort cmp xs)"
    by (simp add: js_sort_def)
  have c: "\<forall>y\<in>set (js_sort cmp xs). cmp_pos (cmp x y) \<longleftrightarrow> \<not> keyLe (f x) (f y)"
    using Cons.prems by simp
  have IH: "sorted_wrt (\<lambda>a b. keyLe (f a) (f b)) (js_sort cmp xs)"
    "\<And>k. filter (\<lambda>a. f a = k) (js_sort cmp xs) = filter (\<lambda>a. f a = k) xs"
    using Cons by auto
  show ?case
    unfolding eq
    using sorted_js_insort[of "js_sort cmp xs" cmp x f, OF c IH(1)]
      stable_js_insort[of "js_sort cmp xs" cmp x f, OF c] IH(2)
    by simp
qed

text \<open>
  For candidates whose \<open>usageCount\<close> and \<open>eligibleCount\<close> entries are numbers (as they are
  for every actor listed in \<^verbatim>\<open>config.actors\<close>), \<open>rankCandidates\<close> returns a permutation of the
  candidates that ascends in the key (usage count; then, for PM only, the \<^verbatim>\<open>preferAM\<close> flag;
  then the eligibility count), and candidates with the same key keep their original relative
  order.
\<close>

lemma rankCandidates_stable_sort:
  assumes "\<forall>a\<in>set candidates. isNum (usageCount st a) \<and> isNum (ec a)"
  shows "mset (rankCandidates I ec candidates sh st) = mset candidates \<and>
         sorted_wrt (\<lambda>a b. keyLe (rankKey I ec sh st a) (rankKey I ec sh st b))
           (rankCandidates I ec candidates sh st) \<and>
         (\<forall>k. filter (\<lambda>a. rankKey I ec sh st a = k) (rankCandidates I ec candidates sh st) =
              filter (\<lambda>a. rankKey I ec sh st a = k) candidates)"
proof -
  have c: "\<forall>x\<in>set candidates. \<forall>y\<in>set candidates.
          cmp_pos (rankCmp I ec sh st x y) \<longleftrightarrow> \<not> keyLe (rankKey I ec sh st x) (rankKey I ec sh st y)"
    using assms rankCmp_pos by blast
  have l: "list_all (\<lambda>a. isNum (usageCount st a) \<and> isNum (ec a)) candidates"
    using assms by (simp add: list_all_iff)
  from js_sort_stable_sort[OF c] l show ?thesis
    by (simp add: rankCandidates_def mset_js_sort)
qed



section \<open>Diagnostics of the fallback\<close>

lemma pmCapped_constraint:
  "pmCapped I st a sh \<Longrightarrow> \<exists>c r. constraintOf I a = Some c \<and> maxPMRatio c = Some r"
  by (auto simp: pmCapped_def split: option.splits)

lemma explainElim_None_iff:
  "explainElim I a sl st = None \<longleftrightarrow> eligible I sl st 0 a"
proof (cases "pmCapped I st a (s_shift sl)")
  case True
  then obtain c r where "constraintOf I a = Some c" "maxPMRatio c = Some r"
    using pmCapped_constraint by blast
  with True show ?thesis
    by (simp add: explainElim_def eligible_def Let_def)
next
  case False
  then show ?thesis
    by (simp add: explainElim_def eligible_def Let_def)
qed

lemma explainElim_nonempty: "explainElim I a sl st = Some r \<Longrightarrow> r \<noteq> []"
  by (auto simp: explainElim_def Let_def split: if_splits option.splits)

lemma eliminationsOf_all:
  assumes "\<forall>a\<in>set as. \<not> eligible I sl st 0 a"
  shows "map fst (eliminationsOf I sl st as) = as"
  using assms
proof (induction as)
  case Nil
  then show ?case by (simp add: eliminationsOf_def)
next
  case (Cons a as)
  from Cons.prems have "explainElim I a sl st \<noteq> None"
    by (simp add: explainElim_None_iff)
  then obtain r where r: "explainElim I a sl st = Some r" by auto
  with explainElim_nonempty have "r \<noteq> []" by blast
  with r Cons show ?case by (simp add: eliminationsOf_def)
qed

lemma eliminationsOf_reasons:
  "(a, r) \<in> set (eliminationsOf I sl st as) \<Longrightarrow> r \<noteq> [] \<and> explainElim I a sl st = Some r"
  by (auto simp: eliminationsOf_def split: option.splits if_splits)

lemma length_js_sort [simp]: "length (js_sort cmp xs) = length xs"
  by (metis mset_js_sort size_mset)

lemma mset_rankCandidates: "mset (rankCandidates I ec cs sh st) = mset cs"
  by (simp add: rankCandidates_def mset_js_sort mset_permOf)

lemma set_rankCandidates [simp]: "set (rankCandidates I ec cs sh st) = set cs"
  by (metis mset_rankCandidates set_mset_mset)

lemma length_rankCandidates [simp]: "length (rankCandidates I ec cs sh st) = length cs"
  by (metis mset_rankCandidates size_mset)

lemma rankCandidates_Nil_iff [simp]: "rankCandidates I ec cs sh st = [] \<longleftrightarrow> cs = []"
  by (metis length_0_conv length_rankCandidates)

lemma getEligible_empty_iff:
  "getEligible I sl st r = [] \<longleftrightarrow> (\<forall>a\<in>set (approvedOf I (s_scenario sl)). \<not> eligible I sl st r a)"
  by (simp add: getEligible_def filter_empty_conv)

text \<open>
  Claim C10. Whenever a step of the greedy fallback adds a diagnostic record, it adds exactly
  one and leaves the state as it is; the record's eliminations name every actor of the
  scenario's approved list, in order, each with a non-empty reason that \<open>explainElim\<close>
  returned; the computed \<^verbatim>\<open>filledCount\<close> is 0; and the suggestion is the one of the
  \<^verbatim>\<open>All N approved actors blocked\<close> branch, so the other branch is never taken. In general
  \<open>explainElim\<close> returns no reason exactly for the actors that pass the level-0 filter.
\<close>

theorem fallback_diagnostic_covers_approved:
  assumes "fbScenario I ec wi sk d sh sc (st, errs) = Some (st', errs')"
    and "errs' \<noteq> errs"
  shows "(\<exists>e. errs' = errs @ [e] \<and> st' = st \<and>
           e = diagnosticOf I \<lparr>s_wi = wi, s_slotKey = sk, s_shift = sh, s_scenario = sc, s_date = d\<rparr> st \<and>
           e_approvedActors e = approvedOf I sc \<and>
           map fst (e_eliminations e) = approvedOf I sc \<and>
           (\<forall>x\<in>set (e_eliminations e). snd x \<noteq> [] \<and>
               explainElim I (fst x) \<lparr>s_wi = wi, s_slotKey = sk, s_shift = sh, s_scenario = sc, s_date = d\<rparr> st = Some (snd x)) \<and>
           filledCountOf I \<lparr>s_wi = wi, s_slotKey = sk, s_shift = sh, s_scenario = sc, s_date = d\<rparr> st = 0 \<and>
           e_suggestion e = ''All '' @ show_nat (length (approvedOf I sc)) @ '' approved actor'' @
               plural (int (length (approvedOf I sc))) @
               '' blocked. Approve more actors for '' @ sc @ '' or adjust availability.'') \<and>
         (\<forall>a' sl' st''. (explainElim I a' sl' st'' = None) = eligible I sl' st'' 0 a')"
proof -
  let ?sl = "\<lparr>s_wi = wi, s_slotKey = sk, s_shift = sh, s_scenario = sc, s_date = d\<rparr>"
  have empty: "getEligible I ?sl st 0 = []"
  proof (rule ccontr)
    assume "getEligible I ?sl st 0 \<noteq> []"
    then have "rankCandidates I ec (getEligible I ?sl st 0) sh st \<noteq> []"
      by simp
    with assms show False
      by (auto simp: fbScenario_def Let_def split: option.splits)
  qed
  then have rej: "\<forall>a\<in>set (approvedOf I sc). \<not> eligible I ?sl st 0 a"
    by (simp add: getEligible_empty_iff)
  have cover: "map fst (eliminationsOf I ?sl st (approvedOf I sc)) = approvedOf I sc"
    using eliminationsOf_all[OF rej] .
  then have len: "length (eliminationsOf I ?sl st (approvedOf I sc)) = length (approvedOf I sc)"
    by (metis length_map)
  have fc: "filledCountOf I ?sl st = 0"
    by (simp add: filledCountOf_def len)
  from assms(1) empty have res: "st' = st" "errs' = errs @ [diagnosticOf I ?sl st]"
    by (auto simp: fbScenario_def Let_def)
  have main: "\<exists>e. errs' = errs @ [e] \<and> st' = st \<and> e = diagnosticOf I ?sl st \<and>
           e_approvedActors e = approvedOf I sc \<and>
           map fst (e_eliminations e) = approvedOf I sc \<and>
           (\<forall>x\<in>set (e_eliminations e). snd x \<noteq> [] \<and> explainElim I (fst x) ?sl st = Some (snd x)) \<and>
           filledCountOf I ?sl st = 0 \<and>
           e_suggestion e = ''All '' @ show_nat (length (approvedOf I sc)) @ '' approved actor'' @
               plural (int (length (approvedOf I sc))) @
               '' blocked. Approve more actors for '' @ sc @ '' or adjust availability.''"
    using res cover fc eliminationsOf_reasons[of _ _ I ?sl st "approvedOf I sc"]
    by (auto simp: diagnosticOf_def Let_def suggestionText_def)
  have "\<forall>a' sl' st''. (explainElim I a' sl' st'' = None) = eligible I sl' st'' 0 a'"
    by (simp add: explainElim_None_iff)
  with main show ?thesis by (rule conjI)
qed

section \<open>Invariants of the search state\<close>

text \<open>
  The proofs follow the search with the list of assignments currently in force (the stack of
  \<open>applyAssign\<close> calls not yet undone). It is a proof device: the program does not store it.
\<close>

definition slotPos :: "slot \<Rightarrow> nat \<times> slotKey \<times> shift \<times> scenario" where
  "slotPos s = (s_wi s, s_slotKey s, s_shift s, s_scenario s)"

definition cellAt :: "sched \<Rightarrow> nat \<times> slotKey \<times> shift \<times> scenario \<Rightarrow> actor option" where
  "cellAt s p = (case p of (wi, sk, sh, sc) \<Rightarrow> getCell s wi sk sh sc)"

definition akey :: "slot \<times> actor \<Rightarrow> nat \<times> shift \<times> actor" where
  "akey x = (s_wi (fst x), s_shift (fst x), snd x)"

definition dayPresent :: "sched \<Rightarrow> slot \<Rightarrow> bool" where
  "dayPresent s sl = (case s (s_wi sl) of None \<Rightarrow> False | Some wv \<Rightarrow> wv (s_slotKey sl) \<noteq> None)"

definition ratioZero :: "inp \<Rightarrow> actor \<Rightarrow> bool" where
  "ratioZero I a = (case constraintOf I a of None \<Rightarrow> False | Some c \<Rightarrow> maxPMRatio c = Some 0)"

definition admissible :: "inp \<Rightarrow> nat \<Rightarrow> slot \<Rightarrow> actor \<Rightarrow> bool" where
  "admissible I relaxLevel sl a =
     (a \<in> set (approvedOf I (s_scenario sl)) \<and>
      (relaxLevel = 0 \<longrightarrow> s_shift sl = PM \<longrightarrow> \<not> ratioZero I a))"

definition distinctPos :: "slot multiset \<Rightarrow> bool" where
  "distinctPos T = (\<forall>p. count (image_mset slotPos T) p \<le> 1)"

definition Inv :: "inp \<Rightarrow> nat \<Rightarrow> slot multiset \<Rightarrow> (slot \<times> actor) list \<Rightarrow> state \<Rightarrow> bool" where
  "Inv I relaxLevel T asg st \<longleftrightarrow>
     distinct (map akey asg) \<and>
     mset (map fst asg) \<subseteq># T \<and>
     (\<forall>x\<in>set asg. weekAssign st (s_wi (fst x)) (s_shift (fst x)) (snd x) = Some [s_scenario (fst x)]) \<and>
     (\<forall>wi sh a. (wi, sh, a) \<notin> akey ` set asg \<longrightarrow> weekAssign st wi sh a = None) \<and>
     (\<forall>p a. cellAt (schedule st) p = Some a \<longrightarrow> (\<exists>s. (s, a) \<in> set asg \<and> slotPos s = p)) \<and>
     (\<forall>s\<in>#T. dayPresent (schedule st) s) \<and>
     (\<forall>x\<in>set asg. admissible I relaxLevel (fst x) (snd x)) \<and>
     (distinctPos T \<longrightarrow> (\<forall>x\<in>set asg. cellAt (schedule st) (slotPos (fst x)) = Some (snd x)))"

text \<open>What eligibility at the time of ranking leaves true for the whole candidate loop.\<close>

definition fits :: "inp \<Rightarrow> nat \<Rightarrow> (slot \<times> actor) list \<Rightarrow> slot \<Rightarrow> actor \<Rightarrow> bool" where
  "fits I relaxLevel asg sl a = (akey (sl, a) \<notin> akey ` set asg \<and> admissible I relaxLevel sl a)"

text \<open>
  Inputs in which no approved actor, and no scenario of a day slot, is named like a property
  of \<^verbatim>\<open>Object.prototype\<close>. The lemmas on the search and the fallback come in one form for
  both uses: the call returns with the invariant if the actors are plain, or if the call
  is known to return.
\<close>

definition plainActors :: "inp \<Rightarrow> bool" where
  "plainActors I = (\<forall>sc. \<forall>a\<in>set (approvedOf I sc). a \<notin> set protoKeys)"

definition plainScenarios :: "inp \<Rightarrow> bool" where
  "plainScenarios I = (\<forall>sk. \<forall>sc\<in>set (scenariosOf I sk). sc \<notin> set protoKeys)"

lemma fits_plain: "plainActors I \<Longrightarrow> fits I r asg sl a \<Longrightarrow> a \<notin> set protoKeys"
  by (auto simp: plainActors_def fits_def admissible_def)

lemma setCell_Some: "dayPresent s sl \<Longrightarrow> \<exists>s'. setCell s sl v = Some s'"
  by (auto simp: dayPresent_def setCell_def split: option.splits)

lemma setCell_eq:
  assumes "setCell s sl v = Some s'"
  obtains wv d where "s (s_wi sl) = Some wv" "wv (s_slotKey sl) = Some d"
    "s' = s(s_wi sl \<mapsto> wv(s_slotKey sl := Some (d\<lparr>d_cells := (d_cells d)(s_shift sl :=
            (d_cells d (s_shift sl))(s_scenario sl \<mapsto> v))\<rparr>)))"
  using assms by (auto simp: setCell_def split: option.splits)

lemma getCell_setCell:
  assumes "setCell s sl v = Some s'"
  shows "getCell s' wi sk sh sc =
     (if wi = s_wi sl \<and> sk = s_slotKey sl \<and> sh = s_shift sl \<and> sc = s_scenario sl then v
      else getCell s wi sk sh sc)"
proof -
  from assms obtain wv d where wv: "s (s_wi sl) = Some wv" and d: "wv (s_slotKey sl) = Some d"
    and s': "s' = s(s_wi sl \<mapsto> wv(s_slotKey sl := Some (d\<lparr>d_cells := (d_cells d)(s_shift sl :=
            (d_cells d (s_shift sl))(s_scenario sl \<mapsto> v))\<rparr>)))"
    by (rule setCell_eq)
  show ?thesis
  proof (cases "wi = s_wi sl")
    case False
    then show ?thesis by (simp add: getCell_def s')
  next
    case wi: True
    show ?thesis
    proof (cases "sk = s_slotKey sl")
      case False
      with wi wv show ?thesis by (simp add: getCell_def s')
    next
      case sk: True
      show ?thesis
      proof (cases "sh = s_shift sl")
        case False
        with wi sk wv d show ?thesis by (simp add: getCell_def s')
      next
        case sh: True
        with wi sk wv d show ?thesis by (simp add: getCell_def s')
      qed
    qed
  qed
qed

lemma cellAt_setCell:
  "setCell s sl v = Some s' \<Longrightarrow> cellAt s' p = (if p = slotPos sl then v else cellAt s p)"
  by (cases p) (simp add: cellAt_def slotPos_def getCell_setCell)

lemma dayPresent_setCell:
  assumes "setCell s sl v = Some s'"
  shows "dayPresent s' x = dayPresent s x"
proof -
  from assms obtain wv d where wv: "s (s_wi sl) = Some wv" and d: "wv (s_slotKey sl) = Some d"
    and s': "s' = s(s_wi sl \<mapsto> wv(s_slotKey sl := Some (d\<lparr>d_cells := (d_cells d)(s_shift sl :=
            (d_cells d (s_shift sl))(s_scenario sl \<mapsto> v))\<rparr>)))"
    by (rule setCell_eq)
  show ?thesis
    using wv d by (auto simp: dayPresent_def s')
qed

lemma applyAssign_Some:
  "dayPresent (schedule st) sl \<Longrightarrow> a \<notin> set protoKeys \<Longrightarrow> \<exists>st'. applyAssign st sl a = Some st'"
  using setCell_Some[of "schedule st" sl "Some a"]
  by (auto simp: applyAssign_def Let_def)

lemma applyAssign_plain: "applyAssign st sl a \<noteq> None \<Longrightarrow> a \<notin> set protoKeys"
  by (auto simp: applyAssign_def split: option.splits if_splits)

lemma applyAssign_parts:
  assumes "applyAssign st sl a = Some st'"
  shows "setCell (schedule st) sl (Some a) = Some (schedule st')"
    and "wa st' = (wa st)(s_wi sl \<mapsto> (weekAssign st (s_wi sl))(s_shift sl :=
           (weekAssign st (s_wi sl) (s_shift sl))(a \<mapsto>
              set_add (case weekAssign st (s_wi sl) (s_shift sl) a of None \<Rightarrow> [] | Some scs \<Rightarrow> scs)
                (s_scenario sl))))"
    and "backtrackCount st' = backtrackCount st"
  using assms
  by (auto simp: applyAssign_def Let_def split: option.splits if_splits)

lemma applyAssign_weekAssign:
  assumes "applyAssign st sl a = Some st'"
  shows "weekAssign st' wi sh b =
      (if wi = s_wi sl \<and> sh = s_shift sl \<and> b = a
       then Some (set_add (case weekAssign st (s_wi sl) (s_shift sl) a of None \<Rightarrow> [] | Some scs \<Rightarrow> scs)
                    (s_scenario sl))
       else weekAssign st wi sh b)"
proof (cases "wi = s_wi sl")
  case True
  then show ?thesis
    by (simp add: weekAssign_def[of st'] applyAssign_parts(2)[OF assms])
next
  case False
  then show ?thesis
    by (simp add: weekAssign_def applyAssign_parts(2)[OF assms])
qed

lemma undoAssign_parts:
  assumes "undoAssign st sl a = Some st'"
  shows "setCell (schedule st) sl None = Some (schedule st')"
    and "\<exists>scs. weekAssign st (s_wi sl) (s_shift sl) a = Some scs \<and>
           wa st' = (wa st)(s_wi sl \<mapsto> (weekAssign st (s_wi sl))(s_shift sl :=
             (if length (removeAll (s_scenario sl) scs) = 0
              then (weekAssign st (s_wi sl) (s_shift sl))(a := None)
              else (weekAssign st (s_wi sl) (s_shift sl))(a \<mapsto> removeAll (s_scenario sl) scs))))"
    and "backtrackCount st' = backtrackCount st"
  using assms
  by (auto simp: undoAssign_def Let_def weekAssign_def split: option.splits)

lemma undoAssign_weekAssign:
  assumes "undoAssign st sl a = Some st'"
  shows "weekAssign st' wi sh b =
      (if wi = s_wi sl \<and> sh = s_shift sl \<and> b = a
       then (case weekAssign st (s_wi sl) (s_shift sl) a of None \<Rightarrow> None
             | Some scs \<Rightarrow> if removeAll (s_scenario sl) scs = [] then None
                          else Some (removeAll (s_scenario sl) scs))
       else weekAssign st wi sh b)"
proof -
  from undoAssign_parts(2)[OF assms] obtain scs where
    scs: "weekAssign st (s_wi sl) (s_shift sl) a = Some scs"
    and w: "wa st' = (wa st)(s_wi sl \<mapsto> (weekAssign st (s_wi sl))(s_shift sl :=
             (if length (removeAll (s_scenario sl) scs) = 0
              then (weekAssign st (s_wi sl) (s_shift sl))(a := None)
              else (weekAssign st (s_wi sl) (s_shift sl))(a \<mapsto> removeAll (s_scenario sl) scs))))"
    by blast
  show ?thesis
  proof (cases "wi = s_wi sl")
    case True
    then show ?thesis
      by (simp add: weekAssign_def[of st'] w scs)
  next
    case False
    then show ?thesis
      by (simp add: weekAssign_def w)
  qed
qed

lemma undoAssign_Some:
  assumes "dayPresent (schedule st) sl" and "weekAssign st (s_wi sl) (s_shift sl) a = Some scs"
  shows "\<exists>st'. undoAssign st sl a = Some st'"
  using assms setCell_Some[of "schedule st" sl None]
  by (auto simp: undoAssign_def Let_def weekAssign_def split: option.splits)

lemma Inv_distinct: "Inv I r T asg st \<Longrightarrow> distinct (map akey asg)"
  and Inv_sub: "Inv I r T asg st \<Longrightarrow> mset (map fst asg) \<subseteq># T"
  and Inv_keys: "Inv I r T asg st \<Longrightarrow> x \<in> set asg \<Longrightarrow>
      weekAssign st (s_wi (fst x)) (s_shift (fst x)) (snd x) = Some [s_scenario (fst x)]"
  and Inv_none: "Inv I r T asg st \<Longrightarrow> (wi, sh, a) \<notin> akey ` set asg \<Longrightarrow> weekAssign st wi sh a = None"
  and Inv_cell: "Inv I r T asg st \<Longrightarrow> cellAt (schedule st) p = Some a \<Longrightarrow>
      \<exists>s. (s, a) \<in> set asg \<and> slotPos s = p"
  and Inv_day: "Inv I r T asg st \<Longrightarrow> s \<in># T \<Longrightarrow> dayPresent (schedule st) s"
  and Inv_adm: "Inv I r T asg st \<Longrightarrow> x \<in> set asg \<Longrightarrow> admissible I r (fst x) (snd x)"
  and Inv_filled: "Inv I r T asg st \<Longrightarrow> distinctPos T \<Longrightarrow> x \<in> set asg \<Longrightarrow>
      cellAt (schedule st) (slotPos (fst x)) = Some (snd x)"
  unfolding Inv_def by blast+

lemma distinctPos_fresh:
  assumes "distinctPos T" and "add_mset sl (mset (map fst asg)) \<subseteq># T" and "x \<in> set asg"
  shows "slotPos (fst x) \<noteq> slotPos sl"
proof
  assume eq: "slotPos (fst x) = slotPos sl"
  let ?M = "add_mset sl (mset (map fst asg))"
  have "fst x \<in># mset (map fst asg)" using assms(3) by simp
  then have "slotPos sl \<in># image_mset slotPos (mset (map fst asg))"
    using eq by (metis image_eqI set_image_mset)
  then have "count (image_mset slotPos (mset (map fst asg))) (slotPos sl) \<ge> 1"
    by simp
  then have "count (image_mset slotPos ?M) (slotPos sl) \<ge> 2" by simp
  moreover have "image_mset slotPos ?M \<subseteq># image_mset slotPos T"
    using assms(2) by (rule image_mset_subseteq_mono)
  then have "count (image_mset slotPos ?M) (slotPos sl) \<le> count (image_mset slotPos T) (slotPos sl)"
    by (rule mset_subset_eq_count)
  moreover have "count (image_mset slotPos T) (slotPos sl) \<le> 1"
    using assms(1) unfolding distinctPos_def by blast
  ultimately show False by linarith
qed

lemma ratioZero_pmCapped: "ratioZero I a \<Longrightarrow> pmCapped I st a PM"
  by (auto simp: ratioZero_def pmCapped_def split: option.splits)

lemma Inv_fits:
  assumes inv: "Inv I r T asg st" and el: "a \<in> set (getEligible I sl st r)"
  shows "fits I r asg sl a"
proof -
  from el have app: "a \<in> set (approvedOf I (s_scenario sl))" and e: "eligible I sl st r a"
    by (auto simp: getEligible_def)
  from e have nu: "\<not> usedIn (weekAssign st (s_wi sl)) (s_shift sl) a"
    by (auto simp: eligible_def Let_def split: if_splits)
  have k: "akey (sl, a) \<notin> akey ` set asg"
  proof
    assume "akey (sl, a) \<in> akey ` set asg"
    then obtain x where x: "x \<in> set asg" and kx: "akey x = akey (sl, a)" by auto
    from Inv_keys[OF inv x]
    have "weekAssign st (s_wi (fst x)) (s_shift (fst x)) (snd x) = Some [s_scenario (fst x)]" .
    with kx have "weekAssign st (s_wi sl) (s_shift sl) a = Some [s_scenario (fst x)]"
      by (simp add: akey_def)
    with nu show False by (simp add: usedIn_def)
  qed
  have "r = 0 \<Longrightarrow> s_shift sl = PM \<Longrightarrow> \<not> ratioZero I a"
  proof
    assume "r = 0" "s_shift sl = PM" "ratioZero I a"
    with ratioZero_pmCapped[of I a st] e show False
      by (auto simp: eligible_def Let_def split: if_splits)
  qed
  with app k show ?thesis by (auto simp: fits_def admissible_def)
qed

lemma Inv_count: "Inv I r T asg st \<Longrightarrow> Inv I r T asg (st\<lparr>backtrackCount := n\<rparr>)"
  by (simp add: Inv_def weekAssign_def)

lemma Inv_apply:
  assumes inv: "Inv I r T asg st" and f: "fits I r asg sl a"
    and sub: "add_mset sl (mset (map fst asg)) \<subseteq># T"
    and na: "a \<notin> set protoKeys"
  shows "\<exists>st'. applyAssign st sl a = Some st' \<and> Inv I r T ((sl, a) # asg) st'"
proof -
  have slT: "sl \<in># T" using sub by (meson mset_subset_eqD union_single_eq_member)
  with inv have dp: "dayPresent (schedule st) sl" by (rule Inv_day)
  then obtain st' where ap: "applyAssign st sl a = Some st'"
    using applyAssign_Some na by blast
  note sc = applyAssign_parts(1)[OF ap]
  note wk = applyAssign_weekAssign[OF ap]
  from f have fresh: "akey (sl, a) \<notin> akey ` set asg" and adm: "admissible I r sl a"
    by (auto simp: fits_def)
  from fresh have "(s_wi sl, s_shift sl, a) \<notin> akey ` set asg" by (simp add: akey_def)
  from Inv_none[OF inv this] have none: "weekAssign st (s_wi sl) (s_shift sl) a = None" .
  have 1: "distinct (map akey ((sl, a) # asg))"
    using Inv_distinct[OF inv] fresh by simp
  have 2: "mset (map fst ((sl, a) # asg)) \<subseteq># T" using sub by simp
  have 3: "\<forall>x\<in>set ((sl, a) # asg).
      weekAssign st' (s_wi (fst x)) (s_shift (fst x)) (snd x) = Some [s_scenario (fst x)]"
  proof
    fix x assume x: "x \<in> set ((sl, a) # asg)"
    show "weekAssign st' (s_wi (fst x)) (s_shift (fst x)) (snd x) = Some [s_scenario (fst x)]"
    proof (cases "x = (sl, a)")
      case True
      then show ?thesis by (simp add: wk none set_add_def)
    next
      case False
      with x have xin: "x \<in> set asg" by simp
      with fresh have "akey x \<noteq> akey (sl, a)" by (metis imageI)
      then have "\<not> (s_wi (fst x) = s_wi sl \<and> s_shift (fst x) = s_shift sl \<and> snd x = a)"
        by (auto simp: akey_def)
      with Inv_keys[OF inv xin] show ?thesis by (auto simp: wk)
    qed
  qed
  have 4: "\<forall>wi sh b. (wi, sh, b) \<notin> akey ` set ((sl, a) # asg) \<longrightarrow> weekAssign st' wi sh b = None"
  proof (intro allI impI)
    fix wi sh b assume n: "(wi, sh, b) \<notin> akey ` set ((sl, a) # asg)"
    then have ne: "\<not> (wi = s_wi sl \<and> sh = s_shift sl \<and> b = a)" and "(wi, sh, b) \<notin> akey ` set asg"
      by (auto simp: akey_def)
    from Inv_none[OF inv this(2)] ne show "weekAssign st' wi sh b = None" by (auto simp: wk)
  qed
  have 5: "\<forall>p b. cellAt (schedule st') p = Some b \<longrightarrow>
      (\<exists>s. (s, b) \<in> set ((sl, a) # asg) \<and> slotPos s = p)"
  proof (intro allI impI)
    fix p b assume c: "cellAt (schedule st') p = Some b"
    show "\<exists>s. (s, b) \<in> set ((sl, a) # asg) \<and> slotPos s = p"
    proof (cases "p = slotPos sl")
      case True
      with c have "b = a" by (simp add: cellAt_setCell[OF sc])
      with True show ?thesis by auto
    next
      case False
      with c have "cellAt (schedule st) p = Some b" by (simp add: cellAt_setCell[OF sc])
      from Inv_cell[OF inv this] obtain s where "(s, b) \<in> set asg" "slotPos s = p" by blast
      then show ?thesis by auto
    qed
  qed
  have 6: "\<forall>s\<in>#T. dayPresent (schedule st') s"
    using Inv_day[OF inv] by (simp add: dayPresent_setCell[OF sc])
  have 7: "\<forall>x\<in>set ((sl, a) # asg). admissible I r (fst x) (snd x)"
    using Inv_adm[OF inv] adm by auto
  have 8: "distinctPos T \<longrightarrow>
      (\<forall>x\<in>set ((sl, a) # asg). cellAt (schedule st') (slotPos (fst x)) = Some (snd x))"
  proof (intro impI ballI)
    fix x assume dT: "distinctPos T" and x: "x \<in> set ((sl, a) # asg)"
    show "cellAt (schedule st') (slotPos (fst x)) = Some (snd x)"
    proof (cases "x = (sl, a)")
      case True
      then show ?thesis by (simp add: cellAt_setCell[OF sc])
    next
      case False
      with x have xin: "x \<in> set asg" by simp
      from distinctPos_fresh[OF dT sub xin] have "slotPos (fst x) \<noteq> slotPos sl" .
      with Inv_filled[OF inv dT xin] show ?thesis by (simp add: cellAt_setCell[OF sc])
    qed
  qed
  from 1 2 3 4 5 6 7 8 have "Inv I r T ((sl, a) # asg) st'"
    unfolding Inv_def by blast
  with ap show ?thesis by blast
qed

lemma Inv_undo:
  assumes inv: "Inv I r T ((sl, a) # asg) st"
  shows "\<exists>st'. undoAssign st sl a = Some st' \<and> Inv I r T asg st'"
proof -
  from Inv_sub[OF inv] have sub: "add_mset sl (mset (map fst asg)) \<subseteq># T" by simp
  then have slT: "sl \<in># T" by (meson mset_subset_eqD union_single_eq_member)
  with inv have dp: "dayPresent (schedule st) sl" by (rule Inv_day)
  from Inv_keys[OF inv, of "(sl, a)"] have w0: "weekAssign st (s_wi sl) (s_shift sl) a = Some [s_scenario sl]"
    by simp
  from undoAssign_Some[OF dp w0] obtain st' where un: "undoAssign st sl a = Some st'" by blast
  note sc = undoAssign_parts(1)[OF un]
  note wk = undoAssign_weekAssign[OF un]
  from Inv_distinct[OF inv] have fresh: "akey (sl, a) \<notin> akey ` set asg" and d: "distinct (map akey asg)"
    by auto
  have 2: "mset (map fst asg) \<subseteq># T"
    using sub by (meson mset_subset_eq_insertD subset_mset.less_imp_le)
  have 3: "\<forall>x\<in>set asg.
      weekAssign st' (s_wi (fst x)) (s_shift (fst x)) (snd x) = Some [s_scenario (fst x)]"
  proof
    fix x assume xin: "x \<in> set asg"
    with fresh have "akey x \<noteq> akey (sl, a)" by (metis imageI)
    then have "\<not> (s_wi (fst x) = s_wi sl \<and> s_shift (fst x) = s_shift sl \<and> snd x = a)"
      by (auto simp: akey_def)
    with Inv_keys[OF inv, of x] xin
    show "weekAssign st' (s_wi (fst x)) (s_shift (fst x)) (snd x) = Some [s_scenario (fst x)]"
      by (auto simp: wk)
  qed
  have 4: "\<forall>wi sh b. (wi, sh, b) \<notin> akey ` set asg \<longrightarrow> weekAssign st' wi sh b = None"
  proof (intro allI impI)
    fix wi sh b assume n: "(wi, sh, b) \<notin> akey ` set asg"
    show "weekAssign st' wi sh b = None"
    proof (cases "wi = s_wi sl \<and> sh = s_shift sl \<and> b = a")
      case True
      then show ?thesis by (simp add: wk w0)
    next
      case False
      with n have "(wi, sh, b) \<notin> akey ` set ((sl, a) # asg)" by (auto simp: akey_def)
      from Inv_none[OF inv this] False show ?thesis by (auto simp: wk)
    qed
  qed
  have 5: "\<forall>p b. cellAt (schedule st') p = Some b \<longrightarrow> (\<exists>s. (s, b) \<in> set asg \<and> slotPos s = p)"
  proof (intro allI impI)
    fix p b assume c: "cellAt (schedule st') p = Some b"
    then have ne: "p \<noteq> slotPos sl" and c0: "cellAt (schedule st) p = Some b"
      by (auto simp: cellAt_setCell[OF sc] split: if_splits)
    from Inv_cell[OF inv c0] obtain s where s: "(s, b) \<in> set ((sl, a) # asg)" "slotPos s = p"
      by blast
    with ne have "(s, b) \<in> set asg" by auto
    with s show "\<exists>s. (s, b) \<in> set asg \<and> slotPos s = p" by blast
  qed
  have 6: "\<forall>s\<in>#T. dayPresent (schedule st') s"
    using Inv_day[OF inv] by (simp add: dayPresent_setCell[OF sc])
  have 7: "\<forall>x\<in>set asg. admissible I r (fst x) (snd x)"
    using Inv_adm[OF inv] by auto
  have 8: "distinctPos T \<longrightarrow> (\<forall>x\<in>set asg. cellAt (schedule st') (slotPos (fst x)) = Some (snd x))"
  proof (intro impI ballI)
    fix x assume dT: "distinctPos T" and xin: "x \<in> set asg"
    from distinctPos_fresh[OF dT sub xin] have "slotPos (fst x) \<noteq> slotPos sl" .
    with Inv_filled[OF inv dT, of x] xin show "cellAt (schedule st') (slotPos (fst x)) = Some (snd x)"
      by (simp add: cellAt_setCell[OF sc])
  qed
  from d 2 3 4 5 6 7 8 have "Inv I r T asg st'"
    unfolding Inv_def by blast
  with un show ?thesis by blast
qed

declare backtrack.simps [simp del] tryCandidates.simps [simp del]

section \<open>The slot array\<close>

lemma take_swapSlots: "i \<le> j \<Longrightarrow> take i (swapSlots xs i j) = take i xs"
  by (simp add: swapSlots_def)

lemma mset_swapSlots: "i < length xs \<Longrightarrow> j < length xs \<Longrightarrow> mset (swapSlots xs i j) = mset xs"
  unfolding swapSlots_def by (rule mset_swap)

lemma mset_drop_swapSlots:
  assumes "i \<le> j" "j < length xs"
  shows "mset (drop i (swapSlots xs i j)) = mset (drop i xs)"
proof -
  have "mset (take i (swapSlots xs i j)) + mset (drop i (swapSlots xs i j)) = mset (swapSlots xs i j)"
    by (metis append_take_drop_id mset_append)
  also have "\<dots> = mset xs" using assms by (simp add: mset_swapSlots)
  also have "\<dots> = mset (take i xs) + mset (drop i xs)"
    by (metis append_take_drop_id mset_append)
  finally show ?thesis using assms by (simp add: take_swapSlots)
qed

lemma drop_step:
  assumes "idx < length xs" "length ys = length xs"
    and "take (Suc idx) ys = take (Suc idx) xs"
    and "mset (drop (Suc idx) ys) = mset (drop (Suc idx) xs)"
  shows "ys ! idx = xs ! idx" "take idx ys = take idx xs" "mset (drop idx ys) = mset (drop idx xs)"
proof -
  show 1: "ys ! idx = xs ! idx"
    using assms by (metis lessI nth_take)
  show "take idx ys = take idx xs"
    using assms(3) by (metis le_add2 plus_1_eq_Suc take_take min.absorb1 Suc_leD le_refl)
  have "drop idx ys = ys ! idx # drop (Suc idx) ys" "drop idx xs = xs ! idx # drop (Suc idx) xs"
    using assms by (simp_all add: Cons_nth_drop_Suc)
  with 1 assms(4) show "mset (drop idx ys) = mset (drop idx xs)" by simp
qed

lemma mrvStep_fst: "fst (mrvStep I r st slots i acc) = i \<or> mrvStep I r st slots i acc = acc"
  by (auto simp: mrvStep_def Let_def split: option.splits)

lemma mrv_fold_range:
  assumes "fst acc \<in> S" "set xs \<subseteq> S"
  shows "fst (fold (mrvStep I r st slots) xs acc) \<in> S"
  using assms
proof (induction xs arbitrary: acc)
  case Nil
  then show ?case by simp
next
  case (Cons x xs)
  have "fst (mrvStep I r st slots x acc) \<in> S"
    using mrvStep_fst[of I r st slots x acc] Cons.prems by auto
  with Cons show ?case by simp
qed

lemma mrvIndex_range:
  assumes "idx < length slots"
  shows "idx \<le> mrvIndex I r st slots idx \<and> mrvIndex I r st slots idx < length slots"
proof -
  have "fst (fold (mrvStep I r st slots) [idx..<length slots] (idx, None)) \<in> {idx..<length slots}"
    by (rule mrv_fold_range) (use assms in auto)
  then show ?thesis by (simp add: mrvIndex_def)
qed

section \<open>The search keeps the invariant\<close>

definition btPost ::
  "inp \<Rightarrow> nat \<Rightarrow> slot multiset \<Rightarrow> (slot \<times> actor) list \<Rightarrow> slot list \<Rightarrow> nat
     \<Rightarrow> bool \<times> slot list \<times> state \<Rightarrow> bool"
where
  "btPost I r T asg slots idx res =
     (case res of (b, slots', st') \<Rightarrow>
        length slots' = length slots \<and> take idx slots' = take idx slots \<and>
        mset (drop idx slots') = mset (drop idx slots) \<and>
        (if b then \<exists>asg'. Inv I r T (asg' @ asg) st' \<and> mset (map fst asg') = mset (drop idx slots)
         else Inv I r T asg st'))"

lemma btPost_I:
  assumes "length slots' = length slots" "take idx slots' = take idx slots"
    "mset (drop idx slots') = mset (drop idx slots)"
    "b \<Longrightarrow> \<exists>asg'. Inv I r T (asg' @ asg) st' \<and> mset (map fst asg') = mset (drop idx slots)"
    "\<not> b \<Longrightarrow> Inv I r T asg st'"
  shows "btPost I r T asg slots idx (b, slots', st')"
  using assms by (auto simp: btPost_def)

lemma btPost_trans:
  assumes "btPost I r T asg xs idx res"
    and "length xs = length slots" "take idx xs = take idx slots"
    "mset (drop idx xs) = mset (drop idx slots)"
  shows "btPost I r T asg slots idx res"
  using assms by (auto simp: btPost_def split: prod.splits)

lemma backtrack_keeps_Inv:
  "idx \<le> length slots \<Longrightarrow> Inv I r T asg st \<Longrightarrow>
     mset (map fst asg) + mset (drop idx slots) \<subseteq># T \<Longrightarrow>
     plainActors I \<or> backtrack I ec r slots idx st \<noteq> None \<Longrightarrow>
     \<exists>res. backtrack I ec r slots idx st = Some res \<and> btPost I r T asg slots idx res"
  "idx < length slots \<Longrightarrow> idx \<le> mrvIdx \<Longrightarrow> mrvIdx < length slots \<Longrightarrow> slots ! idx = sl \<Longrightarrow>
     Inv I r T asg st \<Longrightarrow> \<forall>a\<in>set cands. fits I r asg sl a \<Longrightarrow>
     mset (map fst asg) + mset (drop idx slots) \<subseteq># T \<Longrightarrow>
     plainActors I \<or> tryCandidates I ec r slots idx mrvIdx sl cands st \<noteq> None \<Longrightarrow>
     \<exists>res. tryCandidates I ec r slots idx mrvIdx sl cands st = Some res \<and>
           btPost I r T asg slots idx res"
proof (induction I ec r slots idx st and I ec r slots idx mrvIdx sl cands st
       arbitrary: asg and asg rule: backtrack_tryCandidates.induct)
  case (1 I ec r slots idx st)
  show ?case
  proof (cases "idx = length slots")
    case True
    have "btPost I r T asg slots idx (True, slots, st)"
      using True "1.prems"(2) by (intro btPost_I) (auto intro: exI[of _ "[]"])
    with True show ?thesis by (simp add: backtrack.simps)
  next
    case ne: False
    with "1.prems"(1) have lt: "idx < length slots" by simp
    define st1 where "st1 = st\<lparr>backtrackCount := backtrackCount st + 1\<rparr>"
    have inv1: "Inv I r T asg st1"
      unfolding st1_def using "1.prems"(2) by (rule Inv_count)
    show ?thesis
    proof (cases "backtrackCount st1 > 50000")
      case True
      have "btPost I r T asg slots idx (False, slots, st1)"
        using inv1 by (intro btPost_I) auto
      with ne True show ?thesis
        by (simp add: backtrack.simps[of I ec r slots idx st] st1_def)
    next
      case nb: False
      define m where "m = mrvIndex I r st1 slots idx"
      define slots1 where "slots1 = swapSlots slots idx m"
      define sl where "sl = slots1 ! idx"
      define cands where "cands = rankCandidates I ec (getEligible I sl st1 r) (s_shift sl) st1"
      have m: "idx \<le> m" "m < length slots"
        using mrvIndex_range[OF lt] by (simp_all add: m_def)
      have sw: "length slots1 = length slots" "take idx slots1 = take idx slots"
        "mset (drop idx slots1) = mset (drop idx slots)"
        using m by (simp_all add: slots1_def take_swapSlots mset_drop_swapSlots)
      have eq: "backtrack I ec r slots idx st =
          (if length cands = 0 then Some (False, swapSlots slots1 idx m, st1)
           else tryCandidates I ec r slots1 idx m sl cands st1)"
        using ne nb lt
        by (simp add: backtrack.simps[of I ec r slots idx st] Let_def st1_def m_def slots1_def
              sl_def cands_def)
      show ?thesis
      proof (cases "length cands = 0")
        case True
        have "btPost I r T asg slots idx (False, swapSlots slots1 idx m, st1)"
          using inv1 m sw by (intro btPost_I) (simp_all add: take_swapSlots mset_drop_swapSlots)
        with eq True show ?thesis by simp
      next
        case False
        have fit: "\<forall>a\<in>set cands. fits I r asg sl a"
          using Inv_fits[OF inv1] by (simp add: cands_def)
        have sub: "mset (map fst asg) + mset (drop idx slots1) \<subseteq># T"
          using "1.prems"(3) sw by simp
        have nn: "plainActors I \<or> tryCandidates I ec r slots1 idx m sl cands st1 \<noteq> None"
          using "1.prems"(4) eq False by auto
        have "\<exists>res. tryCandidates I ec r slots1 idx m sl cands st1 = Some res \<and>
                 btPost I r T asg slots1 idx res"
          using lt nb m sw(1) fit sub inv1 False ne nn
          by (intro "1.IH"[where asg = asg])
             (simp_all add: st1_def m_def slots1_def sl_def cands_def)
        then obtain res where res: "tryCandidates I ec r slots1 idx m sl cands st1 = Some res"
          and post: "btPost I r T asg slots1 idx res" by blast
        from btPost_trans[OF post sw] eq False res show ?thesis by simp
      qed
    qed
  qed
next
  case (2 I ec r slots idx mrvIdx sl st)
  have "btPost I r T asg slots idx (False, swapSlots slots idx mrvIdx, st)"
    using "2.prems" by (intro btPost_I) (simp_all add: take_swapSlots mset_drop_swapSlots)
  then show ?case by (simp add: tryCandidates.simps)
next
  case (3 I ec r slots idx mrvIdx sl a as st)
  note lt = "3.prems"(1) and sl = "3.prems"(4) and inv = "3.prems"(5)
  have dr: "drop idx slots = sl # drop (Suc idx) slots"
    using lt sl by (metis Cons_nth_drop_Suc)
  have subT: "add_mset sl (mset (map fst asg)) + mset (drop (Suc idx) slots) \<subseteq># T"
    using "3.prems"(7) by (simp add: dr)
  then have sub1: "add_mset sl (mset (map fst asg)) \<subseteq># T"
    by (meson subset_mset.order_trans mset_subset_eq_add_left)
  have fa: "fits I r asg sl a" and fas: "\<forall>b\<in>set as. fits I r asg sl b"
    using "3.prems"(6) by simp_all
  note nn = "3.prems"(8)
  have na: "a \<notin> set protoKeys"
  proof (cases "plainActors I")
    case True
    then show ?thesis using fa by (rule fits_plain)
  next
    case False
    with nn have "applyAssign st sl a \<noteq> None"
      by (auto simp: tryCandidates.simps split: option.splits)
    then show ?thesis by (rule applyAssign_plain)
  qed
  from Inv_apply[OF inv fa sub1 na] obtain st1 where
    ap: "applyAssign st sl a = Some st1" and inv1: "Inv I r T ((sl, a) # asg) st1" by blast
  show ?case
  proof (cases "forwardOk I r st1 slots idx")
    case fw: True
    have n1: "plainActors I \<or> backtrack I ec r slots (idx + 1) st1 \<noteq> None"
      using nn ap fw by (auto simp: tryCandidates.simps split: option.splits)
    have "\<exists>res. backtrack I ec r slots (idx + 1) st1 = Some res \<and>
             btPost I r T ((sl, a) # asg) slots (idx + 1) res"
      using lt inv1 subT n1 by (intro "3.IH"(1)[OF ap fw]) simp_all
    then obtain b2 sl2 st2 where bt: "backtrack I ec r slots (idx + 1) st1 = Some (b2, sl2, st2)"
      and post2: "btPost I r T ((sl, a) # asg) slots (idx + 1) (b2, sl2, st2)"
      by (metis prod_cases3)
    from post2 have len2: "length sl2 = length slots"
      and tk2: "take (Suc idx) sl2 = take (Suc idx) slots"
      and ms2: "mset (drop (Suc idx) sl2) = mset (drop (Suc idx) slots)"
      by (simp_all add: btPost_def)
    note st = drop_step[OF lt len2 tk2 ms2]
    show ?thesis
    proof (cases b2)
      case True
      with post2 obtain asg' where i2: "Inv I r T (asg' @ (sl, a) # asg) st2"
        and m2: "mset (map fst asg') = mset (drop (Suc idx) slots)"
        by (auto simp: btPost_def)
      have "Inv I r T ((asg' @ [(sl, a)]) @ asg) st2 \<and>
            mset (map fst (asg' @ [(sl, a)])) = mset (drop idx slots)"
        using i2 m2 by (simp add: dr)
      then have "btPost I r T asg slots idx (True, sl2, st2)"
        using len2 st by (intro btPost_I) blast+
      with ap fw bt True show ?thesis
        by (simp add: tryCandidates.simps)
    next
      case False
      with post2 have "Inv I r T ((sl, a) # asg) st2" by (simp add: btPost_def)
      from Inv_undo[OF this] obtain st3 where un: "undoAssign st2 sl a = Some st3"
        and inv3: "Inv I r T asg st3" by blast
      have n2: "plainActors I \<or> tryCandidates I ec r sl2 idx mrvIdx sl as st3 \<noteq> None"
        using nn ap fw bt False un by (auto simp: tryCandidates.simps)
      have "\<exists>res. tryCandidates I ec r sl2 idx mrvIdx sl as st3 = Some res \<and>
               btPost I r T asg sl2 idx res"
        using lt len2 "3.prems"(2,3,7) st sl inv3 fas n2
        by (intro "3.IH"(2)[OF ap fw bt refl refl False un]) simp_all
      then obtain res where res: "tryCandidates I ec r sl2 idx mrvIdx sl as st3 = Some res"
        and post: "btPost I r T asg sl2 idx res" by blast
      from btPost_trans[OF post len2 st(2,3)] ap fw bt False un res show ?thesis
        by (simp add: tryCandidates.simps)
    qed
  next
    case nfw: False
    from Inv_undo[OF inv1] obtain st3 where un: "undoAssign st1 sl a = Some st3"
      and inv3: "Inv I r T asg st3" by blast
    have n3: "plainActors I \<or> tryCandidates I ec r slots idx mrvIdx sl as st3 \<noteq> None"
      using nn ap nfw un by (auto simp: tryCandidates.simps)
    have "\<exists>res. tryCandidates I ec r slots idx mrvIdx sl as st3 = Some res \<and>
             btPost I r T asg slots idx res"
      using "3.prems"(1-7) inv3 fas n3
      by (intro "3.IH"(3)[OF ap nfw un]) simp_all
    with ap nfw un show ?thesis
      by (simp add: tryCandidates.simps)
  qed
qed

section \<open>The slot list and the skeleton\<close>

lemma daySlots_iff:
  "s \<in> set (daySlots I wi k) \<longleftrightarrow>
     s_wi s = wi \<and> s_slotKey s = k \<and> activeDate I wi k = Some (s_date s) \<and>
     s_scenario s \<in> set (scenariosOf I k)"
proof (cases "activeDate I wi k")
  case None
  then show ?thesis by (simp add: daySlots_def)
next
  case (Some d)
  have sh: "s_shift s = AM \<or> s_shift s = PM" by (cases "s_shift s") simp_all
  show ?thesis
  proof
    assume "s \<in> set (daySlots I wi k)"
    then show "s_wi s = wi \<and> s_slotKey s = k \<and> activeDate I wi k = Some (s_date s) \<and>
       s_scenario s \<in> set (scenariosOf I k)"
      using Some by (auto simp: daySlots_def SHIFTS_def)
  next
    assume r: "s_wi s = wi \<and> s_slotKey s = k \<and> activeDate I wi k = Some (s_date s) \<and>
       s_scenario s \<in> set (scenariosOf I k)"
    with Some have d: "s_date s = d" by simp
    have "s = \<lparr>s_wi = wi, s_slotKey = k, s_shift = s_shift s,
               s_scenario = s_scenario s, s_date = d\<rparr>"
      using r d by simp
    then have "s \<in> (\<lambda>sc. \<lparr>s_wi = wi, s_slotKey = k, s_shift = s_shift s,
               s_scenario = sc, s_date = d\<rparr>) ` set (scenariosOf I k)"
      using r by (metis (no_types, lifting) imageI)
    with sh Some show "s \<in> set (daySlots I wi k)"
      by (auto simp: daySlots_def SHIFTS_def)
  qed
qed

lemma allSlots_iff:
  "s \<in> set (allSlots I) \<longleftrightarrow>
     s_wi s < length (weeks I) \<and> activeDate I (s_wi s) (s_slotKey s) = Some (s_date s) \<and>
     s_scenario s \<in> set (scenariosOf I (s_slotKey s))"
proof -
  have sk: "s_slotKey s \<in> set SLOT_KEYS" by (cases "s_slotKey s") (simp_all add: SLOT_KEYS_def)
  have "s \<in> set (allSlots I) \<longleftrightarrow>
      (\<exists>wi<length (weeks I). \<exists>k\<in>set SLOT_KEYS. s \<in> set (daySlots I wi k))"
    by (auto simp: allSlots_def)
  also have "\<dots> \<longleftrightarrow> s_wi s < length (weeks I) \<and> activeDate I (s_wi s) (s_slotKey s) = Some (s_date s) \<and>
     s_scenario s \<in> set (scenariosOf I (s_slotKey s))"
    using sk by (auto simp: daySlots_iff)
  finally show ?thesis .
qed

lemma fold_null_cells:
  "fold (\<lambda>sc m. m(sc \<mapsto> None)) scs m0 sc = (if sc \<in> set scs then Some None else m0 sc)"
  by (induction scs arbitrary: m0) auto

lemma getCell_skeleton: "getCell (skeleton I) wi sk sh sc = None"
  by (simp add: getCell_def skeleton_def fold_null_cells split: option.splits)

lemma dayPresent_skeleton: "s \<in> set (allSlots I) \<Longrightarrow> dayPresent (skeleton I) s"
  by (simp add: allSlots_iff dayPresent_def skeleton_def)

lemma Inv_fresh: "Inv I r (mset (allSlots I)) [] (freshState I)"
  by (simp add: Inv_def freshState_def weekAssign_def cellAt_def getCell_skeleton
        dayPresent_skeleton split: prod.splits)

lemma attempt_result:
  assumes "plainActors I \<or> attempt I ec r \<noteq> None"
  shows "\<exists>b sl st. attempt I ec r = Some (b, sl, st) \<and>
     (if b then \<exists>asg. Inv I r (mset (allSlots I)) asg st \<and> mset (map fst asg) = mset (allSlots I)
      else True)"
proof -
  have "\<exists>res. backtrack I ec r (allSlots I) 0 (freshState I) = Some res \<and>
          btPost I r (mset (allSlots I)) [] (allSlots I) 0 res"
    using assms by (intro backtrack_keeps_Inv(1)) (simp_all add: Inv_fresh attempt_def)
  then show ?thesis
    by (auto simp: attempt_def btPost_def split: if_splits)
qed

section \<open>The fallback keeps the invariant\<close>

definition recPos :: "diagnostic \<Rightarrow> nat \<times> slotKey \<times> shift \<times> scenario" where
  "recPos e = (e_weekKey e, e_slotKey e, e_shift e, e_scenario e)"

definition FInv ::
  "inp \<Rightarrow> slot multiset \<Rightarrow> slot multiset \<Rightarrow> state \<times> diagnostic list \<Rightarrow> bool"
where
  "FInv I T V acc \<longleftrightarrow>
     (\<exists>asg. Inv I 0 T asg (fst acc) \<and> mset (map fst asg) \<subseteq># V \<and>
        image_mset recPos (mset (snd acc)) + image_mset slotPos (mset (map fst asg)) =
          image_mset slotPos V \<and>
        (\<forall>e\<in>set (snd acc). \<exists>sl st0. e = diagnosticOf I sl st0 \<and> getEligible I sl st0 0 = []))"

lemma recPos_diagnosticOf [simp]: "recPos (diagnosticOf I sl st) = slotPos sl"
  by (simp add: recPos_def diagnosticOf_def Let_def slotPos_def)

lemma subset_add_mset: "A \<subseteq># V \<Longrightarrow> A \<subseteq># add_mset x V"
  by (metis add_mset_add_single mset_subset_eq_add_left subset_mset.order_trans)

lemma foldM_mset_rule:
  assumes step: "\<And>x V s. x \<in> set xs \<Longrightarrow> P V s \<Longrightarrow> V + g x \<subseteq># T \<Longrightarrow> ok \<or> f x s \<noteq> None \<Longrightarrow>
                   \<exists>s'. f x s = Some s' \<and> P (V + g x) s'"
    and "P V s" and "V + sum_list (map g xs) \<subseteq># T" and "ok \<or> foldM f xs s \<noteq> None"
  shows "\<exists>s'. foldM f xs s = Some s' \<and> P (V + sum_list (map g xs)) s'"
  using assms
proof (induction xs arbitrary: V s)
  case Nil
  then show ?case by simp
next
  case (Cons x xs)
  have sub: "V + g x \<subseteq># T"
  proof -
    have "V + g x \<subseteq># V + g x + sum_list (map g xs)" by simp
    also have "\<dots> \<subseteq># T" using Cons.prems(3) by (simp add: add.assoc)
    finally show ?thesis .
  qed
  have n0: "ok \<or> f x s \<noteq> None"
    using Cons.prems(4) by (auto split: option.splits)
  from Cons.prems(1)[OF _ Cons.prems(2) sub n0] obtain s1 where
    s1: "f x s = Some s1" and p1: "P (V + g x) s1" by auto
  have n1: "ok \<or> foldM f xs s1 \<noteq> None"
    using Cons.prems(4) s1 by auto
  have "\<exists>s'. foldM f xs s1 = Some s' \<and> P (V + g x + sum_list (map g xs)) s'"
  proof (rule Cons.IH[OF _ p1 _ n1])
    show "V + g x + sum_list (map g xs) \<subseteq># T"
      using Cons.prems(3) by (simp add: add.assoc)
  next
    fix y W t assume "y \<in> set xs" "P W t" "W + g y \<subseteq># T" "ok \<or> f y t \<noteq> None"
    then show "\<exists>s'. f y t = Some s' \<and> P (W + g y) s'"
      using Cons.prems(1) by simp
  qed
  with s1 show ?case by (simp add: add.assoc)
qed

lemma fbScenario_step:
  assumes inv: "FInv I T V acc"
    and sub: "add_mset \<lparr>s_wi = wi, s_slotKey = sk, s_shift = sh, s_scenario = sc, s_date = d\<rparr> V \<subseteq># T"
    and nn: "plainActors I \<or> fbScenario I ec wi sk d sh sc acc \<noteq> None"
  shows "\<exists>acc'. fbScenario I ec wi sk d sh sc acc = Some acc' \<and>
     FInv I T (add_mset \<lparr>s_wi = wi, s_slotKey = sk, s_shift = sh, s_scenario = sc, s_date = d\<rparr> V) acc'"
proof -
  let ?sl = "\<lparr>s_wi = wi, s_slotKey = sk, s_shift = sh, s_scenario = sc, s_date = d\<rparr>"
  obtain st errs where acc: "acc = (st, errs)" by (cases acc)
  from inv acc obtain asg where i: "Inv I 0 T asg st" and s: "mset (map fst asg) \<subseteq># V"
    and im: "image_mset recPos (mset errs) + image_mset slotPos (mset (map fst asg)) =
          image_mset slotPos V"
    and rec: "\<forall>e\<in>set errs. \<exists>sl st0. e = diagnosticOf I sl st0 \<and> getEligible I sl st0 0 = []"
    by (auto simp: FInv_def)
  let ?c = "rankCandidates I ec (getEligible I ?sl st 0) sh st"
  show ?thesis
  proof (cases "getEligible I ?sl st 0 = []")
    case True
    have "FInv I T (add_mset ?sl V) (st, errs @ [diagnosticOf I ?sl st])"
      unfolding FInv_def
    proof (intro exI[of _ asg] conjI)
      show "Inv I 0 T asg (fst (st, errs @ [diagnosticOf I ?sl st]))" using i by simp
      show "mset (map fst asg) \<subseteq># add_mset ?sl V"
        using s by (rule subset_add_mset)
      show "image_mset recPos (mset (snd (st, errs @ [diagnosticOf I ?sl st]))) +
            image_mset slotPos (mset (map fst asg)) = image_mset slotPos (add_mset ?sl V)"
        using im by simp
      show "\<forall>e\<in>set (snd (st, errs @ [diagnosticOf I ?sl st])).
              \<exists>sl st0. e = diagnosticOf I sl st0 \<and> getEligible I sl st0 0 = []"
        using rec True by auto
    qed
    with True acc show ?thesis by (simp add: fbScenario_def Let_def)
  next
    case False
    then have ne: "?c \<noteq> []" by simp
    from hd_in_set[OF ne] have "hd ?c \<in> set (getEligible I ?sl st 0)" by simp
    from Inv_fits[OF i this] have fit: "fits I 0 asg ?sl (hd ?c)" .
    have "add_mset ?sl (mset (map fst asg)) \<subseteq># add_mset ?sl V"
      using s by simp
    then have subT: "add_mset ?sl (mset (map fst asg)) \<subseteq># T"
      using sub by (rule subset_mset.order_trans)
    have na: "hd ?c \<notin> set protoKeys"
    proof (cases "plainActors I")
      case True
      then show ?thesis using fit by (rule fits_plain)
    next
      case False
      with nn ne acc have "applyAssign st ?sl (hd ?c) \<noteq> None"
        by (auto simp: fbScenario_def Let_def split: option.splits)
      then show ?thesis by (rule applyAssign_plain)
    qed
    from Inv_apply[OF i fit subT na] obtain st' where ap: "applyAssign st ?sl (hd ?c) = Some st'"
      and i': "Inv I 0 T ((?sl, hd ?c) # asg) st'" by blast
    have "FInv I T (add_mset ?sl V) (st', errs)"
      unfolding FInv_def
    proof (intro exI[of _ "(?sl, hd ?c) # asg"] conjI)
      show "Inv I 0 T ((?sl, hd ?c) # asg) (fst (st', errs))" using i' by simp
      show "mset (map fst ((?sl, hd ?c) # asg)) \<subseteq># add_mset ?sl V" using s by simp
      show "image_mset recPos (mset (snd (st', errs))) +
            image_mset slotPos (mset (map fst ((?sl, hd ?c) # asg))) =
            image_mset slotPos (add_mset ?sl V)"
        using im by simp
      show "\<forall>e\<in>set (snd (st', errs)). \<exists>sl st0. e = diagnosticOf I sl st0 \<and> getEligible I sl st0 0 = []"
        using rec by simp
    qed
    with ne ap acc show ?thesis by (simp add: fbScenario_def Let_def)
  qed
qed

declare relaxLoop.simps [simp del]

definition mkSlot :: "nat \<Rightarrow> slotKey \<Rightarrow> date \<Rightarrow> shift \<Rightarrow> scenario \<Rightarrow> slot" where
  "mkSlot wi sk d sh sc = \<lparr>s_wi = wi, s_slotKey = sk, s_shift = sh, s_scenario = sc, s_date = d\<rparr>"

lemma mkSlot_fun:
  "mkSlot wi sk d sh = (\<lambda>sc. \<lparr>s_wi = wi, s_slotKey = sk, s_shift = sh, s_scenario = sc, s_date = d\<rparr>)"
  by (rule ext) (simp add: mkSlot_def)

lemma sum_list_singletons: "sum_list (map (\<lambda>x. {#f x#}) xs) = mset (map f xs)"
  by (induction xs) auto

lemma mset_scenarioOrder: "mset (scenarioOrder I sk d sh) = mset (scenariosOf I sk)"
  by (simp add: scenarioOrder_def mset_js_sort)

lemma fbShift_step:
  assumes inv: "FInv I T V acc"
    and sub: "V + mset (map (mkSlot wi sk d sh) (scenariosOf I sk)) \<subseteq># T"
    and nn: "plainActors I \<or> fbShift I ec wi sk d sh acc \<noteq> None"
  shows "\<exists>acc'. fbShift I ec wi sk d sh acc = Some acc' \<and>
     FInv I T (V + mset (map (mkSlot wi sk d sh) (scenariosOf I sk))) acc'"
proof -
  let ?g = "\<lambda>sc. {#mkSlot wi sk d sh sc#}"
  have eq: "sum_list (map ?g (scenarioOrder I sk d sh)) = mset (map (mkSlot wi sk d sh) (scenariosOf I sk))"
    by (simp add: sum_list_singletons mset_scenarioOrder flip: mset_map)
  have "\<exists>acc'. foldM (fbScenario I ec wi sk d sh) (scenarioOrder I sk d sh) acc = Some acc' \<and>
          FInv I T (V + sum_list (map ?g (scenarioOrder I sk d sh))) acc'"
  proof (rule foldM_mset_rule[where P = "FInv I T" and T = T and ok = "plainActors I"])
    fix x W s assume "FInv I T W s" "W + {#mkSlot wi sk d sh x#} \<subseteq># T"
      "plainActors I \<or> fbScenario I ec wi sk d sh x s \<noteq> None"
    then show "\<exists>s'. fbScenario I ec wi sk d sh x s = Some s' \<and> FInv I T (W + {#mkSlot wi sk d sh x#}) s'"
      using fbScenario_step[of I T W s wi sk sh x d ec] by (simp add: mkSlot_def)
  next
    show "FInv I T V acc" by (rule inv)
    show "V + sum_list (map ?g (scenarioOrder I sk d sh)) \<subseteq># T" using sub eq by simp
    show "plainActors I \<or> foldM (fbScenario I ec wi sk d sh) (scenarioOrder I sk d sh) acc \<noteq> None"
      using nn by (simp add: fbShift_def)
  qed
  then show ?thesis unfolding eq fbShift_def .
qed

lemma daySlots_active:
  "activeDate I wi sk = Some d \<Longrightarrow>
     mset (daySlots I wi sk) = sum_list (map (\<lambda>sh. mset (map (mkSlot wi sk d sh) (scenariosOf I sk))) SHIFTS)"
  by (simp add: daySlots_def mset_concat mkSlot_fun comp_def)

lemma fbDay_step:
  assumes inv: "FInv I T V acc" and sub: "V + mset (daySlots I wi sk) \<subseteq># T"
    and nn: "plainActors I \<or> fbDay I ec wi sk acc \<noteq> None"
  shows "\<exists>acc'. fbDay I ec wi sk acc = Some acc' \<and> FInv I T (V + mset (daySlots I wi sk)) acc'"
proof (cases "activeDate I wi sk")
  case None
  with inv show ?thesis by (simp add: fbDay_def daySlots_def)
next
  case (Some d)
  let ?g = "\<lambda>sh. mset (map (mkSlot wi sk d sh) (scenariosOf I sk))"
  have "\<exists>acc'. foldM (fbShift I ec wi sk d) SHIFTS acc = Some acc' \<and>
          FInv I T (V + sum_list (map ?g SHIFTS)) acc'"
  proof (rule foldM_mset_rule[where P = "FInv I T" and T = T and ok = "plainActors I"])
    fix x W s assume "FInv I T W s" "W + ?g x \<subseteq># T"
      "plainActors I \<or> fbShift I ec wi sk d x s \<noteq> None"
    then show "\<exists>s'. fbShift I ec wi sk d x s = Some s' \<and> FInv I T (W + ?g x) s'"
      by (rule fbShift_step)
  next
    show "FInv I T V acc" by (rule inv)
    show "V + sum_list (map ?g SHIFTS) \<subseteq># T" using sub by (simp add: daySlots_active[OF Some])
    show "plainActors I \<or> foldM (fbShift I ec wi sk d) SHIFTS acc \<noteq> None"
      using nn by (simp add: fbDay_def Some)
  qed
  then show ?thesis unfolding daySlots_active[OF Some] fbDay_def Some by simp
qed

lemma fbWeek_step:
  assumes inv: "FInv I T V acc"
    and sub: "V + mset (concat (map (daySlots I wi) SLOT_KEYS)) \<subseteq># T"
    and nn: "plainActors I \<or> fbWeek I ec wi acc \<noteq> None"
  shows "\<exists>acc'. fbWeek I ec wi acc = Some acc' \<and>
     FInv I T (V + mset (concat (map (daySlots I wi) SLOT_KEYS))) acc'"
proof -
  let ?g = "\<lambda>sk. mset (daySlots I wi sk)"
  have eq: "mset (concat (map (daySlots I wi) SLOT_KEYS)) = sum_list (map ?g SLOT_KEYS)"
    by (simp add: mset_concat comp_def)
  have "\<exists>acc'. foldM (fbDay I ec wi) SLOT_KEYS acc = Some acc' \<and>
          FInv I T (V + sum_list (map ?g SLOT_KEYS)) acc'"
  proof (rule foldM_mset_rule[where P = "FInv I T" and T = T and ok = "plainActors I"])
    fix x W s assume "FInv I T W s" "W + ?g x \<subseteq># T"
      "plainActors I \<or> fbDay I ec wi x s \<noteq> None"
    then show "\<exists>s'. fbDay I ec wi x s = Some s' \<and> FInv I T (W + ?g x) s'"
      by (rule fbDay_step)
  next
    show "FInv I T V acc" by (rule inv)
    show "V + sum_list (map ?g SLOT_KEYS) \<subseteq># T" using sub eq by simp
    show "plainActors I \<or> foldM (fbDay I ec wi) SLOT_KEYS acc \<noteq> None"
      using nn by (simp add: fbWeek_def)
  qed
  then show ?thesis unfolding eq fbWeek_def .
qed

lemma FInv_fresh: "FInv I (mset (allSlots I)) {#} (freshState I, [])"
  unfolding FInv_def by (intro exI[of _ "[]"]) (simp add: Inv_fresh)

lemma fallback_result:
  assumes nn: "plainActors I \<or> fallback I ec \<noteq> None"
  shows "\<exists>st errs. fallback I ec = Some \<lparr>r_schedule = schedule st, r_errors = errs\<rparr> \<and>
     FInv I (mset (allSlots I)) (mset (allSlots I)) (st, errs)"
proof -
  let ?T = "mset (allSlots I)"
  let ?g = "\<lambda>wi. mset (concat (map (daySlots I wi) SLOT_KEYS))"
  have eq: "?T = sum_list (map ?g [0..<length (weeks I)])"
    by (simp add: allSlots_def mset_concat comp_def)
  have "\<exists>acc'. foldM (fbWeek I ec) [0..<length (weeks I)] (freshState I, []) = Some acc' \<and>
          FInv I ?T ({#} + sum_list (map ?g [0..<length (weeks I)])) acc'"
  proof (rule foldM_mset_rule[where P = "FInv I ?T" and T = ?T and ok = "plainActors I"])
    fix x W s assume "FInv I ?T W s" "W + ?g x \<subseteq># ?T"
      "plainActors I \<or> fbWeek I ec x s \<noteq> None"
    then show "\<exists>s'. fbWeek I ec x s = Some s' \<and> FInv I ?T (W + ?g x) s'"
      by (rule fbWeek_step)
  next
    show "FInv I ?T {#} (freshState I, [])" by (rule FInv_fresh)
    show "{#} + sum_list (map ?g [0..<length (weeks I)]) \<subseteq># ?T" using eq by simp
    show "plainActors I \<or> foldM (fbWeek I ec) [0..<length (weeks I)] (freshState I, []) \<noteq> None"
      using nn by (auto simp: fallback_def split: option.splits)
  qed
  then obtain acc' where f: "foldM (fbWeek I ec) [0..<length (weeks I)] (freshState I, []) = Some acc'"
    and i: "FInv I ?T ?T acc'" using eq by auto
  then show ?thesis
    by (cases acc') (auto simp: fallback_def)
qed

section \<open>The relaxation loop\<close>

definition failsAt :: "inp \<Rightarrow> nat \<Rightarrow> bool" where
  "failsAt I r = (\<exists>sl st. attempt I (eligibleCount I) r = Some (False, sl, st))"

definition succeedsAt :: "inp \<Rightarrow> nat \<Rightarrow> state \<Rightarrow> bool" where
  "succeedsAt I r st = (\<exists>sl. attempt I (eligibleCount I) r = Some (True, sl, st))"

lemma attempt_cases:
  "plainActors I \<or> attempt I (eligibleCount I) r \<noteq> None \<Longrightarrow>
     failsAt I r \<or> (\<exists>st. succeedsAt I r st)"
  using attempt_result[of I "eligibleCount I" r]
  by (auto simp: failsAt_def succeedsAt_def)

lemma relaxLoop_char:
  assumes "plainActors I \<or> relaxLoop I (eligibleCount I) r \<noteq> None"
  shows
  "(\<exists>r' st. r \<le> r' \<and> r' \<le> 3 \<and> succeedsAt I r' st \<and> (\<forall>q. r \<le> q \<and> q < r' \<longrightarrow> failsAt I q) \<and>
       relaxLoop I (eligibleCount I) r = Some \<lparr>r_schedule = schedule st, r_errors = []\<rparr>) \<or>
   ((\<forall>q. r \<le> q \<and> q \<le> 3 \<longrightarrow> failsAt I q) \<and>
       relaxLoop I (eligibleCount I) r = fallback I (eligibleCount I))"
  using assms
proof (induction "4 - r" arbitrary: r)
  case 0
  then have "r > 3" by simp
  then have "relaxLoop I (eligibleCount I) r = fallback I (eligibleCount I)"
    and "\<forall>q. r \<le> q \<and> q \<le> 3 \<longrightarrow> failsAt I q"
    by (auto simp add: relaxLoop.simps[of I _ r])
  then show ?case by blast
next
  case (Suc n)
  then have r3: "r \<le> 3" by simp
  have na: "plainActors I \<or> attempt I (eligibleCount I) r \<noteq> None"
    using Suc.prems r3
    by (cases "attempt I (eligibleCount I) r") (auto simp: relaxLoop.simps[of I _ r])
  from attempt_cases[OF na] show ?case
  proof
    assume "\<exists>st. succeedsAt I r st"
    then obtain st where s: "succeedsAt I r st" by blast
    then have "relaxLoop I (eligibleCount I) r = Some \<lparr>r_schedule = schedule st, r_errors = []\<rparr>"
      using r3 by (auto simp: succeedsAt_def relaxLoop.simps[of I _ r])
    with s r3 show ?thesis by (intro disjI1 exI[of _ r] exI[of _ st]) auto
  next
    assume f: "failsAt I r"
    then have step: "relaxLoop I (eligibleCount I) r = relaxLoop I (eligibleCount I) (r + 1)"
      using r3 by (auto simp: failsAt_def relaxLoop.simps[of I _ r])
    have nn: "plainActors I \<or> relaxLoop I (eligibleCount I) (r + 1) \<noteq> None"
      using Suc.prems step by simp
    have "n = 4 - (r + 1)" using Suc.hyps(2) by simp
    from Suc.hyps(1)[OF this nn] show ?thesis
    proof
      assume "\<exists>r' st. r + 1 \<le> r' \<and> r' \<le> 3 \<and> succeedsAt I r' st \<and>
          (\<forall>q. r + 1 \<le> q \<and> q < r' \<longrightarrow> failsAt I q) \<and>
          relaxLoop I (eligibleCount I) (r + 1) = Some \<lparr>r_schedule = schedule st, r_errors = []\<rparr>"
      then obtain r' st where a: "r + 1 \<le> r'" "r' \<le> 3" "succeedsAt I r' st"
        "\<forall>q. r + 1 \<le> q \<and> q < r' \<longrightarrow> failsAt I q"
        "relaxLoop I (eligibleCount I) (r + 1) = Some \<lparr>r_schedule = schedule st, r_errors = []\<rparr>"
        by blast
      have "\<forall>q. r \<le> q \<and> q < r' \<longrightarrow> failsAt I q"
      proof (intro allI impI)
        fix q assume "r \<le> q \<and> q < r'"
        then have "q = r \<or> (r + 1 \<le> q \<and> q < r')" by auto
        with f a(4) show "failsAt I q" by blast
      qed
      with a step show ?thesis
        by (intro disjI1 exI[of _ r'] exI[of _ st]) auto
    next
      assume b: "(\<forall>q. r + 1 \<le> q \<and> q \<le> 3 \<longrightarrow> failsAt I q) \<and>
          relaxLoop I (eligibleCount I) (r + 1) = fallback I (eligibleCount I)"
      have "\<forall>q. r \<le> q \<and> q \<le> 3 \<longrightarrow> failsAt I q"
      proof (intro allI impI)
        fix q assume "r \<le> q \<and> q \<le> 3"
        then have "q = r \<or> (r + 1 \<le> q \<and> q \<le> 3)" by auto
        with f b show "failsAt I q" by blast
      qed
      with b step show ?thesis by auto
    qed
  qed
qed

section \<open>The precompute loop\<close>

lemma foldM_guard:
  "foldM (\<lambda>x s. if P x then Some (h x s) else None) xs s =
     (if \<forall>x\<in>set xs. P x then Some (fold h xs s) else None)"
  by (induction xs arbitrary: s) auto

lemma foldM_guard_fun:
  "foldM (\<lambda>x s. if P x then Some (h x s) else None) xs =
     (\<lambda>s. if \<forall>x\<in>set xs. P x then Some (fold h xs s) else None)"
  by (rule ext) (rule foldM_guard)

lemma case_guard:
  "(case x of None \<Rightarrow> Some s | Some d \<Rightarrow> if Q d then Some (H d) else None) =
     (if (case x of None \<Rightarrow> True | Some d \<Rightarrow> Q d)
      then Some (case x of None \<Rightarrow> s | Some d \<Rightarrow> H d) else None)"
  by (cases x) auto

lemma approvedIter_Some: "approvedIter I sc = Some l \<Longrightarrow> approvedOf I sc = l"
  by (auto simp: approvedIter_def approvedOf_def split: option.splits if_splits)

lemma approvedIter_guard:
  "(case approvedIter I sc of None \<Rightarrow> None | Some approved \<Rightarrow> Some (F approved ec)) =
     (if approvedIter I sc \<noteq> None then Some (F (approvedOf I sc) ec) else None)"
  by (auto simp: approvedIter_Some split: option.splits)

lemma precompute_eq:
  "precompute I =
     (if \<forall>s\<in>set (allSlots I). approvedIter I (s_scenario s) \<noteq> None
      then Some (eligibleCount I) else None)"
proof -
  let ?Q = "\<lambda>wi sk. case activeDate I wi sk of None \<Rightarrow> True
              | Some d \<Rightarrow> \<forall>sh\<in>set SHIFTS. \<forall>sc\<in>set (scenariosOf I sk). approvedIter I sc \<noteq> None"
  have pc: "precompute I =
      (if \<forall>wi\<in>set [0..<length (weeks I)]. \<forall>sk\<in>set SLOT_KEYS. ?Q wi sk
       then Some (eligibleCount I) else None)"
    unfolding precompute_def eligibleCount_def
    by (simp only: approvedIter_guard foldM_guard foldM_guard_fun case_guard)
  have "(\<forall>wi\<in>set [0..<length (weeks I)]. \<forall>sk\<in>set SLOT_KEYS. ?Q wi sk) \<longleftrightarrow>
        (\<forall>s\<in>set (allSlots I). approvedIter I (s_scenario s) \<noteq> None)"
  proof
    assume q: "\<forall>wi\<in>set [0..<length (weeks I)]. \<forall>sk\<in>set SLOT_KEYS. ?Q wi sk"
    show "\<forall>s\<in>set (allSlots I). approvedIter I (s_scenario s) \<noteq> None"
    proof
      fix s assume "s \<in> set (allSlots I)"
      then have a: "s_wi s < length (weeks I)"
        "activeDate I (s_wi s) (s_slotKey s) = Some (s_date s)"
        "s_scenario s \<in> set (scenariosOf I (s_slotKey s))"
        by (simp_all add: allSlots_iff)
      have sk: "s_slotKey s \<in> set SLOT_KEYS"
        by (cases "s_slotKey s") (simp_all add: SLOT_KEYS_def)
      from q a(1) sk have "?Q (s_wi s) (s_slotKey s)" by simp
      with a(2,3) show "approvedIter I (s_scenario s) \<noteq> None"
        by (auto simp: SHIFTS_def)
    qed
  next
    assume r: "\<forall>s\<in>set (allSlots I). approvedIter I (s_scenario s) \<noteq> None"
    show "\<forall>wi\<in>set [0..<length (weeks I)]. \<forall>sk\<in>set SLOT_KEYS. ?Q wi sk"
    proof (intro ballI)
      fix wi sk assume wi: "wi \<in> set [0..<length (weeks I)]"
      show "?Q wi sk"
      proof (cases "activeDate I wi sk")
        case None
        then show ?thesis by simp
      next
        case (Some d)
        have "approvedIter I sc \<noteq> None" if "sc \<in> set (scenariosOf I sk)" for sc
        proof -
          have "\<lparr>s_wi = wi, s_slotKey = sk, s_shift = AM, s_scenario = sc, s_date = d\<rparr>
                  \<in> set (allSlots I)"
            using wi Some that by (simp add: allSlots_iff)
          with r show ?thesis by fastforce
        qed
        with Some show ?thesis by simp
      qed
    qed
  qed
  with pc show ?thesis by simp
qed

lemma precompute_plain: "plainScenarios I \<Longrightarrow> precompute I = Some (eligibleCount I)"
  by (auto simp: precompute_eq plainScenarios_def allSlots_iff approvedIter_def
        split: option.splits)

lemma precompute_Some: "precompute I \<noteq> None \<Longrightarrow> precompute I = Some (eligibleCount I)"
  by (simp add: precompute_eq split: if_splits)

section \<open>What every returned schedule satisfies\<close>

lemma generateSchedule_cases:
  assumes "(plainActors I \<and> plainScenarios I) \<or> generateSchedule I \<noteq> None"
  obtains (search) r st asg where "r \<le> 3" "succeedsAt I r st" "\<forall>q<r. failsAt I q"
      "generateSchedule I = Some \<lparr>r_schedule = schedule st, r_errors = []\<rparr>"
      "Inv I r (mset (allSlots I)) asg st" "mset (map fst asg) = mset (allSlots I)"
  | (greedy) st errs asg where "\<forall>q\<le>3. failsAt I q"
      "generateSchedule I = Some \<lparr>r_schedule = schedule st, r_errors = errs\<rparr>"
      "Inv I 0 (mset (allSlots I)) asg st"
      "image_mset recPos (mset errs) + image_mset slotPos (mset (map fst asg)) =
         image_mset slotPos (mset (allSlots I))"
      "\<forall>e\<in>set errs. \<exists>sl st0. e = diagnosticOf I sl st0 \<and> getEligible I sl st0 0 = []"
proof -
  have pc: "precompute I = Some (eligibleCount I)"
  proof (cases "plainScenarios I")
    case True
    then show ?thesis by (rule precompute_plain)
  next
    case False
    with assms have "precompute I \<noteq> None"
      by (auto simp: generateSchedule_def split: option.splits)
    then show ?thesis by (rule precompute_Some)
  qed
  then have g: "generateSchedule I = relaxLoop I (eligibleCount I) 0"
    by (simp add: generateSchedule_def)
  have nn: "plainActors I \<or> relaxLoop I (eligibleCount I) 0 \<noteq> None"
    using assms g by auto
  from relaxLoop_char[OF nn] show thesis
  proof
    assume "\<exists>r' st. 0 \<le> r' \<and> r' \<le> 3 \<and> succeedsAt I r' st \<and> (\<forall>q. 0 \<le> q \<and> q < r' \<longrightarrow> failsAt I q) \<and>
       relaxLoop I (eligibleCount I) 0 = Some \<lparr>r_schedule = schedule st, r_errors = []\<rparr>"
    then obtain r st where a: "r \<le> 3" "succeedsAt I r st" "\<forall>q<r. failsAt I q"
      "relaxLoop I (eligibleCount I) 0 = Some \<lparr>r_schedule = schedule st, r_errors = []\<rparr>"
      by auto
    from a(2) obtain sl where at: "attempt I (eligibleCount I) r = Some (True, sl, st)"
      by (auto simp: succeedsAt_def)
    then have "plainActors I \<or> attempt I (eligibleCount I) r \<noteq> None" by simp
    from attempt_result[OF this] at obtain asg where
      "Inv I r (mset (allSlots I)) asg st" "mset (map fst asg) = mset (allSlots I)"
      by auto
    with a g show thesis by (intro search[of r st asg]) simp_all
  next
    assume b: "(\<forall>q. 0 \<le> q \<and> q \<le> 3 \<longrightarrow> failsAt I q) \<and>
       relaxLoop I (eligibleCount I) 0 = fallback I (eligibleCount I)"
    with nn have "plainActors I \<or> fallback I (eligibleCount I) \<noteq> None" by auto
    from fallback_result[OF this] obtain st errs where
      f: "fallback I (eligibleCount I) = Some \<lparr>r_schedule = schedule st, r_errors = errs\<rparr>"
      and i: "FInv I (mset (allSlots I)) (mset (allSlots I)) (st, errs)" by blast
    from i obtain asg where "Inv I 0 (mset (allSlots I)) asg st"
      "image_mset recPos (mset errs) + image_mset slotPos (mset (map fst asg)) =
         image_mset slotPos (mset (allSlots I))"
      "\<forall>e\<in>set errs. \<exists>sl st0. e = diagnosticOf I sl st0 \<and> getEligible I sl st0 0 = []"
      by (auto simp: FInv_def)
    with b f g show thesis by (intro greedy[of st errs asg]) simp_all
  qed
qed

text \<open>With plain names the run does not throw.\<close>

lemma generateSchedule_returns:
  assumes "plainActors I" "plainScenarios I"
  shows "\<exists>res. generateSchedule I = Some res"
proof -
  from assms have "(plainActors I \<and> plainScenarios I) \<or> generateSchedule I \<noteq> None" by simp
  then show ?thesis by (rule generateSchedule_cases) auto
qed








section \<open>Every slot is filled or explained\<close>








section \<open>Scenarios without approved actors\<close>




lemma backtrackCount_freshState [simp]: "backtrackCount (freshState I) = 0"
  by (simp add: freshState_def)





section \<open>The expansion budget\<close>

lemma bt_count:
  "backtrack I ec r slots idx st = Some (b, slots', st') \<Longrightarrow>
     length slots' = length slots \<and>
     (idx = length slots \<longrightarrow> b \<and> st' = st) \<and>
     (idx \<noteq> length slots \<longrightarrow> backtrackCount st < backtrackCount st') \<and>
     (b \<longrightarrow> idx = length slots \<or> backtrackCount st' \<le> 50000) \<and>
     (b \<longrightarrow> backtrackCount st + (length slots - idx) \<le> backtrackCount st')"
  "tryCandidates I ec r slots idx mrvIdx sl cands st = Some (b, slots', st') \<Longrightarrow>
     length slots' = length slots \<and>
     backtrackCount st \<le> backtrackCount st' \<and>
     (idx + 1 = length slots \<longrightarrow> backtrackCount st' = backtrackCount st) \<and>
     (b \<longrightarrow> idx + 1 = length slots \<or> backtrackCount st' \<le> 50000) \<and>
     (b \<longrightarrow> backtrackCount st + (length slots - (idx + 1)) \<le> backtrackCount st')"
proof (induction I ec r slots idx st and I ec r slots idx mrvIdx sl cands st
       arbitrary: b slots' st' and b slots' st' rule: backtrack_tryCandidates.induct)
  case (1 I ec r slots idx st)
  show ?case
  proof (cases "idx = length slots")
    case True
    with "1.prems" show ?thesis by (simp add: backtrack.simps)
  next
    case ne: False
    define st1 where "st1 = st\<lparr>backtrackCount := backtrackCount st + 1\<rparr>"
    have c1: "backtrackCount st1 = backtrackCount st + 1" by (simp add: st1_def)
    show ?thesis
    proof (cases "backtrackCount st1 > 50000")
      case True
      with ne "1.prems" have "b = False" "slots' = slots" "st' = st1"
        by (simp_all add: backtrack.simps[of I ec r slots idx st] st1_def)
      with ne c1 show ?thesis by simp
    next
      case nb: False
      show ?thesis
      proof (cases "idx > length slots")
        case True
        with ne nb "1.prems" show ?thesis
          by (simp add: backtrack.simps[of I ec r slots idx st] st1_def)
      next
        case ng: False
        with ne have lt: "idx < length slots" by simp
        define m where "m = mrvIndex I r st1 slots idx"
        define slots1 where "slots1 = swapSlots slots idx m"
        define sl where "sl = slots1 ! idx"
        define cands where "cands = rankCandidates I ec (getEligible I sl st1 r) (s_shift sl) st1"
        have eq: "backtrack I ec r slots idx st =
            (if length cands = 0 then Some (False, swapSlots slots1 idx m, st1)
             else tryCandidates I ec r slots1 idx m sl cands st1)"
          using ne nb lt
          by (simp add: backtrack.simps[of I ec r slots idx st] Let_def st1_def m_def slots1_def
                sl_def cands_def)
        show ?thesis
        proof (cases "length cands = 0")
          case True
          with eq "1.prems" have "b = False" "slots' = swapSlots slots1 idx m" "st' = st1"
            by simp_all
          with ne c1 show ?thesis by (simp add: slots1_def)
        next
          case False
          with eq "1.prems" have
            t: "tryCandidates I ec r slots1 idx m sl cands st1 = Some (b, slots', st')"
            by simp
          have ih: "length slots' = length slots1 \<and>
             backtrackCount st1 \<le> backtrackCount st' \<and>
             (idx + 1 = length slots1 \<longrightarrow> backtrackCount st' = backtrackCount st1) \<and>
             (b \<longrightarrow> idx + 1 = length slots1 \<or> backtrackCount st' \<le> 50000) \<and>
             (b \<longrightarrow> backtrackCount st1 + (length slots1 - (idx + 1)) \<le> backtrackCount st')"
            using ne nb ng False t
            by (intro "1.IH") (simp_all add: st1_def m_def slots1_def sl_def cands_def)
          have l1: "length slots1 = length slots" by (simp add: slots1_def)
          from ih l1 c1 nb lt ne show ?thesis by auto
        qed
      qed
    qed
  qed
next
  case (2 I ec r slots idx mrvIdx sl st)
  then show ?case by (auto simp: tryCandidates.simps)
next
  case (3 I ec r slots idx mrvIdx sl a as st)
  note eq = "3.prems"[unfolded tryCandidates.simps(2)]
  from eq obtain st1 where ap: "applyAssign st sl a = Some st1"
    by (auto split: option.splits)
  have c1: "backtrackCount st1 = backtrackCount st" using applyAssign_parts(3)[OF ap] .
  show ?case
  proof (cases "forwardOk I r st1 slots idx")
    case fw: True
    from eq ap fw obtain b2 sl2 st2 where
      bt: "backtrack I ec r slots (idx + 1) st1 = Some (b2, sl2, st2)"
      by (auto split: option.splits)
    note ih2 = "3.IH"(1)[OF ap fw bt]
    show ?thesis
    proof (cases b2)
      case True
      with eq ap fw bt have "b = True" "slots' = sl2" "st' = st2" by simp_all
      with ih2 True c1 show ?thesis by auto
    next
      case False
      from eq ap fw bt False obtain st3 where un: "undoAssign st2 sl a = Some st3"
        and rest: "tryCandidates I ec r sl2 idx mrvIdx sl as st3 = Some (b, slots', st')"
        by (auto split: option.splits)
      have c3: "backtrackCount st3 = backtrackCount st2" using undoAssign_parts(3)[OF un] .
      note ih3 = "3.IH"(2)[OF ap fw bt refl refl False un rest]
      from ih2 ih3 False c1 c3 show ?thesis by auto
    qed
  next
    case nfw: False
    from eq ap nfw obtain st3 where un: "undoAssign st1 sl a = Some st3"
      and rest: "tryCandidates I ec r slots idx mrvIdx sl as st3 = Some (b, slots', st')"
      by (auto split: option.splits)
    have c3: "backtrackCount st3 = backtrackCount st1" using undoAssign_parts(3)[OF un] .
    note ih3 = "3.IH"(3)[OF ap nfw un rest]
    from ih3 c1 c3 show ?thesis by auto
  qed
qed

lemma relaxLoop_next:
  assumes "failsAt I r"
  shows "relaxLoop I (eligibleCount I) r =
     (if r < 3 then relaxLoop I (eligibleCount I) (r + 1) else fallback I (eligibleCount I))"
proof -
  from assms obtain sl st where "attempt I (eligibleCount I) r = Some (False, sl, st)"
    by (auto simp: failsAt_def)
  then have "relaxLoop I (eligibleCount I) r =
      (if r \<le> 3 then relaxLoop I (eligibleCount I) (r + 1) else fallback I (eligibleCount I))"
    by (simp add: relaxLoop.simps[of I _ r])
  moreover have "relaxLoop I (eligibleCount I) (Suc r) = fallback I (eligibleCount I)" if "3 \<le> r"
    using that by (simp add: relaxLoop.simps[of I _ "Suc r"])
  ultimately show ?thesis by (cases "r < 3") auto
qed

text \<open>
  Claim C6. Every attempt starts \<open>backtrack\<close> on a fresh state whose expansion counter is 0.
  A call of \<open>backtrack\<close> on a position that is still to be assigned adds exactly one to the
  counter before anything else: when the counter was already at 50000 (so that it now exceeds
  50000) the call returns failure with the slot array untouched; when it was below 50000 the
  call goes on, with the counter one higher, to the choice of the slot and the candidate
  loop. Nothing else changes the counter: \<open>applyAssign\<close> and \<open>undoAssign\<close> keep it, and a call at
  the end of the array leaves the state as it is. So every call on a position to be assigned
  returns a larger counter, a successful call has counted every remaining position, and an
  attempt that succeeds has counted every slot and ends with a counter of at most 50000.
  After a failed attempt the loop goes on to the next level, and after level 3 to the greedy
  fallback.
\<close>

theorem expansion_budget:
  "(\<forall>r. attempt I ec r = backtrack I ec r (allSlots I) 0 (freshState I)) \<and>
   backtrackCount (freshState I) = 0 \<and>
   (\<forall>r slots idx st. idx < length slots \<and> 50000 \<le> backtrackCount st \<longrightarrow>
      backtrack I ec r slots idx st =
        Some (False, slots, st\<lparr>backtrackCount := backtrackCount st + 1\<rparr>)) \<and>
   (\<forall>r slots idx st. idx < length slots \<and> backtrackCount st < 50000 \<longrightarrow>
      backtrack I ec r slots idx st =
        (let st1 = st\<lparr>backtrackCount := backtrackCount st + 1\<rparr>;
             mrvIdx = mrvIndex I r st1 slots idx;
             slots1 = swapSlots slots idx mrvIdx;
             sl = slots1 ! idx;
             candidates = rankCandidates I ec (getEligible I sl st1 r) (s_shift sl) st1
         in if candidates = [] then Some (False, swapSlots slots1 idx mrvIdx, st1)
            else tryCandidates I ec r slots1 idx mrvIdx sl candidates st1)) \<and>
   (\<forall>st sl a st'. applyAssign st sl a = Some st' \<or> undoAssign st sl a = Some st' \<longrightarrow>
      backtrackCount st' = backtrackCount st) \<and>
   (\<forall>r slots idx st b slots' st'.
      backtrack I ec r slots idx st = Some (b, slots', st') \<longrightarrow>
        (idx = length slots \<longrightarrow> st' = st) \<and>
        (idx < length slots \<longrightarrow> backtrackCount st < backtrackCount st') \<and>
        (b \<longrightarrow> backtrackCount st + (length slots - idx) \<le> backtrackCount st')) \<and>
   (\<forall>r sl st. attempt I ec r = Some (True, sl, st) \<longrightarrow>
      length (allSlots I) \<le> backtrackCount st \<and> backtrackCount st \<le> 50000) \<and>
   (\<forall>r. failsAt I r \<longrightarrow>
      relaxLoop I (eligibleCount I) r =
        (if r < 3 then relaxLoop I (eligibleCount I) (r + 1) else fallback I (eligibleCount I)))"
proof (intro conjI allI impI)
  fix r show "attempt I ec r = backtrack I ec r (allSlots I) 0 (freshState I)"
    by (simp add: attempt_def)
next
  show "backtrackCount (freshState I) = 0" by simp
next
  fix r and slots :: "slot list" and idx and st :: state
  assume "idx < length slots \<and> 50000 \<le> backtrackCount st"
  then show "backtrack I ec r slots idx st =
      Some (False, slots, st\<lparr>backtrackCount := backtrackCount st + 1\<rparr>)"
    by (simp add: backtrack.simps[of I ec r slots idx st])
next
  fix r and slots :: "slot list" and idx and st :: state
  assume "idx < length slots \<and> backtrackCount st < 50000"
  then show "backtrack I ec r slots idx st =
        (let st1 = st\<lparr>backtrackCount := backtrackCount st + 1\<rparr>;
             mrvIdx = mrvIndex I r st1 slots idx;
             slots1 = swapSlots slots idx mrvIdx;
             sl = slots1 ! idx;
             candidates = rankCandidates I ec (getEligible I sl st1 r) (s_shift sl) st1
         in if candidates = [] then Some (False, swapSlots slots1 idx mrvIdx, st1)
            else tryCandidates I ec r slots1 idx mrvIdx sl candidates st1)"
    by (simp add: backtrack.simps[of I ec r slots idx st] Let_def)
next
  fix st sl a st'
  assume "applyAssign st sl a = Some st' \<or> undoAssign st sl a = Some st'"
  then show "backtrackCount st' = backtrackCount st"
    using applyAssign_parts(3) undoAssign_parts(3) by blast
next
  fix r slots idx st b slots' st'
  assume a: "backtrack I ec r slots idx st = Some (b, slots', st')"
  { assume "idx = length slots" with bt_count(1)[OF a] show "st' = st" by simp }
  { assume "idx < length slots" with bt_count(1)[OF a] show "backtrackCount st < backtrackCount st'"
      by simp }
  { assume b with bt_count(1)[OF a]
    show "backtrackCount st + (length slots - idx) \<le> backtrackCount st'" by simp }
next
  fix r sl st
  assume a: "attempt I ec r = Some (True, sl, st)"
  then have bt: "backtrack I ec r (allSlots I) 0 (freshState I) = Some (True, sl, st)"
    by (simp add: attempt_def)
  from bt_count(1)[OF bt] show "length (allSlots I) \<le> backtrackCount st" by simp
  from bt_count(1)[OF bt] show "backtrackCount st \<le> 50000" by auto
next
  fix r assume "failsAt I r"
  then show "relaxLoop I (eligibleCount I) r =
      (if r < 3 then relaxLoop I (eligibleCount I) (r + 1) else fallback I (eligibleCount I))"
    by (rule relaxLoop_next)
qed

section \<open>Evaluating the search\<close>

text \<open>
  \<open>hasConflict\<close> looks at the scenarios an actor already holds in the week and shift; the
  uniqueness test before it lets only actors through who hold none, so it never rejects.
\<close>

lemma hasConflict_unused: "\<not> usedIn w sh a \<Longrightarrow> \<not> hasConflict a sc sh w cs"
  by (auto simp: usedIn_def hasConflict_def split: option.splits)

lemma eligible_iff:
  "eligible I sl st r a \<longleftrightarrow>
     isAvailableForShift (dayAvailOf I (s_date sl) a) (s_shift sl) \<and>
     \<not> usedIn (weekAssign st (s_wi sl)) (s_shift sl) a \<and>
     \<not> (r < 2 \<and> dayNotAllowed I a (s_date sl)) \<and>
     \<not> (r < 1 \<and> pmCapped I st a (s_shift sl))"
  using hasConflict_unused[of "weekAssign st (s_wi sl)" "s_shift sl" a "s_scenario sl" "conflicts (cfg I)"]
  by (auto simp: eligible_def Let_def)

text \<open>The state after an assignment, named so that evaluation keeps terms small.\<close>

definition applied :: "state \<Rightarrow> slot \<Rightarrow> actor \<Rightarrow> state" where
  "applied st sl a = the (applyAssign st sl a)"

lemma applyAssign_applied:
  "dayPresent (schedule st) sl \<Longrightarrow> a \<notin> set protoKeys \<Longrightarrow>
     applyAssign st sl a = Some (applied st sl a)"
  using applyAssign_Some[of st sl a] by (auto simp: applied_def)


lemma applied_usedIn:
  "dayPresent (schedule st) sl \<Longrightarrow> a \<notin> set protoKeys \<Longrightarrow>
     usedIn (weekAssign (applied st sl a) wi) sh b =
       ((wi = s_wi sl \<and> sh = s_shift sl \<and> b = a) \<or> usedIn (weekAssign st wi) sh b)"
  using applyAssign_weekAssign[OF applyAssign_applied, of st sl a wi sh b]
  by (auto simp: usedIn_def set_add_def split: option.splits)

lemma applied_getCell:
  "dayPresent (schedule st) sl \<Longrightarrow> a \<notin> set protoKeys \<Longrightarrow>
     getCell (schedule (applied st sl a)) wi sk sh sc =
       (if wi = s_wi sl \<and> sk = s_slotKey sl \<and> sh = s_shift sl \<and> sc = s_scenario sl then Some a
        else getCell (schedule st) wi sk sh sc)"
  using getCell_setCell[OF applyAssign_parts(1)[OF applyAssign_applied], of st sl a] by simp

lemma applied_dayPresent:
  "dayPresent (schedule st) sl \<Longrightarrow> a \<notin> set protoKeys \<Longrightarrow>
     dayPresent (schedule (applied st sl a)) x = dayPresent (schedule st) x"
  using dayPresent_setCell[OF applyAssign_parts(1)[OF applyAssign_applied], of st sl a] by simp

lemma applied_count:
  "dayPresent (schedule st) sl \<Longrightarrow> a \<notin> set protoKeys \<Longrightarrow>
     backtrackCount (applied st sl a) = backtrackCount st"
  using applyAssign_parts(3)[OF applyAssign_applied, of st sl a] by simp

lemma applyAssign_usage:
  "applyAssign st sl a = Some st' \<Longrightarrow> usageCount st' = incr (usageCount st) a"
  by (auto simp: applyAssign_def Let_def split: option.splits if_splits)

lemma applied_usage:
  "dayPresent (schedule st) sl \<Longrightarrow> a \<notin> set protoKeys \<Longrightarrow>
     usageCount (applied st sl a) = incr (usageCount st) a"
  using applyAssign_usage[OF applyAssign_applied, of st sl a] by simp

lemma weekAssign_count [simp]: "weekAssign (st\<lparr>backtrackCount := n\<rparr>) = weekAssign st"
  by (rule ext) (simp add: weekAssign_def)

lemma usedIn_fresh [simp]: "\<not> usedIn (weekAssign (freshState I) wi) sh a"
  by (simp add: usedIn_def weekAssign_def freshState_def)

lemma getCell_fresh [simp]: "getCell (schedule (freshState I)) wi sk sh sc = None"
  by (simp add: freshState_def getCell_skeleton)

lemma usageCount_fresh: "usageCount (freshState I) = zeroCounts (actors (cfg I))"
  by (simp add: freshState_def)

lemma dayPresent_fresh:
  "dayPresent (schedule (freshState I)) sl \<longleftrightarrow>
     s_wi sl < length (weeks I) \<and> activeDate I (s_wi sl) (s_slotKey sl) \<noteq> None"
  by (auto simp: dayPresent_def freshState_def skeleton_def split: option.splits)

lemma diagnosticOf_fields [simp]:
  "e_weekKey (diagnosticOf I sl st) = s_wi sl"
  "e_slotKey (diagnosticOf I sl st) = s_slotKey sl"
  "e_shift (diagnosticOf I sl st) = s_shift sl"
  "e_scenario (diagnosticOf I sl st) = s_scenario sl"
  "e_approvedActors (diagnosticOf I sl st) = approvedOf I (s_scenario sl)"
  by (simp_all add: diagnosticOf_def Let_def)

text \<open>A single candidate is ranked first by every engine.\<close>

lemma rankCandidates_single: "rankCandidates I ec [a] sh st = [a]"
  by (simp add: rankCandidates_def js_sort_def insertAt_def)

lemma rankCandidates_engine:
  "\<not> list_all (\<lambda>a. isNum (usageCount st a) \<and> isNum (ec a)) cs \<Longrightarrow>
     rankCandidates I ec cs sh st = permOf (sortCode (i_env I) (rankCmp I ec sh st) cs) cs"
  by (simp add: rankCandidates_def)

lemmas search_eval = backtrack.simps tryCandidates.simps Let_def mrvIndex_def mrvStep_def
  swapSlots_def forwardOk_def getEligible_def eligible_iff rankCandidates_single
  applyAssign_applied applied_usedIn applied_getCell applied_dayPresent applied_count
  dayPresent_fresh upt_conv_Cons protoKeys_def



lemma first_success:
  assumes "precompute I = Some (eligibleCount I)"
    and "attempt I (eligibleCount I) 0 = Some (True, sl, st)"
  shows "generateSchedule I = Some \<lparr>r_schedule = schedule st, r_errors = []\<rparr>"
  using assms by (simp add: generateSchedule_def relaxLoop.simps[of I _ 0])


section \<open>Reading a result\<close>

definition cellOf :: "result option \<Rightarrow> nat \<Rightarrow> slotKey \<Rightarrow> shift \<Rightarrow> scenario \<Rightarrow> actor option" where
  "cellOf r wi sk sh sc = (case r of None \<Rightarrow> None | Some res \<Rightarrow> getCell (r_schedule res) wi sk sh sc)"

definition errorsOf :: "result option \<Rightarrow> diagnostic list" where
  "errorsOf r = (case r of None \<Rightarrow> [] | Some res \<Rightarrow> r_errors res)"





section \<open>Example inputs\<close>

text \<open>
  One week with one training day, Tuesday 2026-03-10, in the first day slot. \<open>demoEnv\<close> gives
  the runtime's date functions on the two dates of the examples; the percentage text is not
  used by them, and the engine leaves an array it sorts with an inconsistent comparator as
  it is. In \<open>demo\<close> two scenarios \<open>X\<close> and \<open>Y\<close>, bound by a conflict rule, have one approved
  actor each.
\<close>

definition demoEnv :: env where
  "demoEnv = \<lparr>getDay = (\<lambda>d. if d = ''2026-03-18'' then Some 3 else Some 2),
     fmtMD = (\<lambda>d. if d = ''2026-03-18'' then ''3/18'' else ''3/10''),
     roundPct = (\<lambda>r. ''50''),
     divGe = (\<lambda>p u r. r \<le> of_int p / of_int u), sortCode = (\<lambda>c xs. 0)\<rparr>"

definition demoPlan :: weekPlan where
  "demoPlan = (\<lambda>sk. if sk = slot1 then Some ''2026-03-10'' else None)"

definition demo :: inp where
  "demo = \<lparr>i_env = demoEnv, weeks = [[]], weekPlans = [0 \<mapsto> demoPlan],
     availability = [''2026-03-10'' \<mapsto> [''A'' \<mapsto> JBool True, ''B'' \<mapsto> JStr ''both'']],
     cfg = \<lparr>actors = [''A'', ''B''],
       scenarioActors = [''X'' \<mapsto> [''A''], ''Y'' \<mapsto> [''B'']],
       slotScenarios = [slot1 \<mapsto> [''X'', ''Y'']],
       conflicts = Some [\<lparr>actor_cannot_play = Some [''X'', ''Y''], scope = ''same_shift''\<rparr>],
       actorConstraints = None, defaultDays = Map.empty\<rparr>\<rparr>"

text \<open>In \<open>capIn\<close> the only actor \<open>P\<close> of the only scenario \<open>X\<close> has \<^verbatim>\<open>maxPMRatio: 0\<close>.\<close>

definition noPM :: constraint where
  "noPM = \<lparr>allowedDays = None, maxPMRatio = Some 0, preferAM = False\<rparr>"

definition capIn :: inp where
  "capIn = \<lparr>i_env = demoEnv, weeks = [[]], weekPlans = [0 \<mapsto> demoPlan],
     availability = [''2026-03-10'' \<mapsto> [''P'' \<mapsto> JBool True]],
     cfg = \<lparr>actors = [''P''], scenarioActors = [''X'' \<mapsto> [''P'']],
       slotScenarios = [slot1 \<mapsto> [''X'']], conflicts = None,
       actorConstraints = Some [''P'' \<mapsto> noPM], defaultDays = Map.empty\<rparr>\<rparr>"

text \<open>\<open>gapIn\<close> is \<open>capIn\<close> with a second scenario \<open>Z\<close> on the day that nobody is approved for.\<close>

definition gapIn :: inp where
  "gapIn = \<lparr>i_env = demoEnv, weeks = [[]], weekPlans = [0 \<mapsto> demoPlan],
     availability = [''2026-03-10'' \<mapsto> [''P'' \<mapsto> JBool True]],
     cfg = \<lparr>actors = [''P''], scenarioActors = [''X'' \<mapsto> [''P'']],
       slotScenarios = [slot1 \<mapsto> [''X'', ''Z'']], conflicts = None,
       actorConstraints = Some [''P'' \<mapsto> noPM], defaultDays = Map.empty\<rparr>\<rparr>"

text \<open>In \<open>dupIn\<close> the day lists the scenario \<open>Z\<close> twice, and nobody is approved for it.\<close>

definition dupIn :: inp where
  "dupIn = \<lparr>i_env = demoEnv, weeks = [[]], weekPlans = [0 \<mapsto> demoPlan],
     availability = Map.empty,
     cfg = \<lparr>actors = [], scenarioActors = Map.empty,
       slotScenarios = [slot1 \<mapsto> [''Z'', ''Z'']], conflicts = None,
       actorConstraints = None, defaultDays = Map.empty\<rparr>\<rparr>"

text \<open>In \<open>ctorIn\<close> the scenario of the day is named \<^verbatim>\<open>constructor\<close> and has no approvals entry.\<close>

definition ctorIn :: inp where
  "ctorIn = \<lparr>i_env = demoEnv, weeks = [[]], weekPlans = [0 \<mapsto> demoPlan],
     availability = Map.empty,
     cfg = \<lparr>actors = [], scenarioActors = Map.empty,
       slotScenarios = [slot1 \<mapsto> [''constructor'']], conflicts = None,
       actorConstraints = None, defaultDays = Map.empty\<rparr>\<rparr>"

text \<open>\<open>protoIn\<close> is \<open>gapIn\<close> with an actor named \<^verbatim>\<open>valueOf\<close> in place of \<open>P\<close>, without constraints.\<close>

definition protoIn :: inp where
  "protoIn = \<lparr>i_env = demoEnv, weeks = [[]], weekPlans = [0 \<mapsto> demoPlan],
     availability = [''2026-03-10'' \<mapsto> [''valueOf'' \<mapsto> JBool True]],
     cfg = \<lparr>actors = [''valueOf''], scenarioActors = [''X'' \<mapsto> [''valueOf'']],
       slotScenarios = [slot1 \<mapsto> [''X'', ''Z'']], conflicts = None,
       actorConstraints = None, defaultDays = Map.empty\<rparr>\<rparr>"

text \<open>
  \<open>unlistedIn\<close> has two weeks: scenario \<open>X\<close> (approved: \<open>A\<close>) on Tuesday 2026-03-10 in the first
  day slot of the first week, and scenario \<open>Y\<close> (approved: \<open>A\<close>, \<open>Q\<close>, \<open>B\<close>) on Wednesday
  2026-03-18 in the second day slot of the second week. \<open>Q\<close> is approved and available but
  is missing from \<^verbatim>\<open>config.actors\<close>.
\<close>

definition wedPlan :: weekPlan where
  "wedPlan = (\<lambda>sk. if sk = slot2 then Some ''2026-03-18'' else None)"

definition unlistedIn :: inp where
  "unlistedIn = \<lparr>i_env = demoEnv, weeks = [[], []], weekPlans = [0 \<mapsto> demoPlan, 1 \<mapsto> wedPlan],
     availability = [''2026-03-10'' \<mapsto> [''A'' \<mapsto> JBool True],
       ''2026-03-18'' \<mapsto> [''A'' \<mapsto> JBool True, ''Q'' \<mapsto> JBool True, ''B'' \<mapsto> JBool True]],
     cfg = \<lparr>actors = [''A'', ''B''],
       scenarioActors = [''X'' \<mapsto> [''A''], ''Y'' \<mapsto> [''A'', ''Q'', ''B'']],
       slotScenarios = [slot1 \<mapsto> [''X''], slot2 \<mapsto> [''Y'']], conflicts = None,
       actorConstraints = None, defaultDays = Map.empty\<rparr>\<rparr>"

definition mk :: "shift \<Rightarrow> scenario \<Rightarrow> slot" where
  "mk sh sc = \<lparr>s_wi = 0, s_slotKey = slot1, s_shift = sh, s_scenario = sc, s_date = ''2026-03-10''\<rparr>"

definition mk2 :: "shift \<Rightarrow> scenario \<Rightarrow> slot" where
  "mk2 sh sc = \<lparr>s_wi = 1, s_slotKey = slot2, s_shift = sh, s_scenario = sc, s_date = ''2026-03-18''\<rparr>"

lemma mk_simps [simp]:
  "s_wi (mk sh sc) = 0" "s_slotKey (mk sh sc) = slot1" "s_shift (mk sh sc) = sh"
  "s_scenario (mk sh sc) = sc" "s_date (mk sh sc) = ''2026-03-10''"
  "mk sh sc = mk sh' sc' \<longleftrightarrow> sh = sh' \<and> sc = sc'"
  by (auto simp: mk_def)

lemma mk2_simps [simp]:
  "s_wi (mk2 sh sc) = Suc 0" "s_slotKey (mk2 sh sc) = slot2" "s_shift (mk2 sh sc) = sh"
  "s_scenario (mk2 sh sc) = sc" "s_date (mk2 sh sc) = ''2026-03-18''"
  "mk2 sh sc = mk2 sh' sc' \<longleftrightarrow> sh = sh' \<and> sc = sc'"
  "mk sh sc \<noteq> mk2 sh' sc'" "mk2 sh' sc' \<noteq> mk sh sc"
  by (auto simp: mk_def mk2_def)

lemma mk_fold:
  "\<lparr>s_wi = 0, s_slotKey = slot1, s_shift = sh, s_scenario = sc, s_date = ''2026-03-10''\<rparr> = mk sh sc"
  "\<lparr>s_wi = Suc 0, s_slotKey = slot2, s_shift = sh, s_scenario = sc, s_date = ''2026-03-18''\<rparr> = mk2 sh sc"
  by (simp_all add: mk_def mk2_def)

lemmas input_defs = activeDate_def planOf_def scenariosOf_def approvedOf_def dayAvailOf_def
  isAvailableForShift_def normalizeAvail_def dayNotAllowed_def pmCapped_def constraintOf_def
  demoPlan_def wedPlan_def noPM_def

lemma demo_facts:
  "weeks demo = [[]]"
  "activeDate demo 0 sk = (if sk = slot1 then Some ''2026-03-10'' else None)"
  "scenariosOf demo sk = (if sk = slot1 then [''X'', ''Y''] else [])"
  "approvedOf demo sc = (if sc = ''X'' then [''A''] else if sc = ''Y'' then [''B''] else [])"
  "scenarioActors (cfg demo) sc =
     (if sc = ''X'' then Some [''A''] else if sc = ''Y'' then Some [''B''] else None)"
  "isAvailableForShift (dayAvailOf demo ''2026-03-10'' a) sh \<longleftrightarrow> a = ''A'' \<or> a = ''B''"
  "dayNotAllowed demo a d = False"
  "pmCapped demo st a sh = False"
  by (auto simp: demo_def input_defs)

lemma capIn_facts:
  "weeks capIn = [[]]"
  "activeDate capIn 0 sk = (if sk = slot1 then Some ''2026-03-10'' else None)"
  "scenariosOf capIn sk = (if sk = slot1 then [''X''] else [])"
  "approvedOf capIn sc = (if sc = ''X'' then [''P''] else [])"
  "scenarioActors (cfg capIn) sc = (if sc = ''X'' then Some [''P''] else None)"
  "isAvailableForShift (dayAvailOf capIn ''2026-03-10'' a) sh \<longleftrightarrow> a = ''P''"
  "dayNotAllowed capIn a d = False"
  "pmCapped capIn st a sh \<longleftrightarrow> sh = PM \<and> a = ''P''"
  "constraintOf capIn ''P'' = Some noPM"
  by (auto simp: capIn_def input_defs)

lemma gapIn_facts:
  "weeks gapIn = [[]]"
  "activeDate gapIn 0 sk = (if sk = slot1 then Some ''2026-03-10'' else None)"
  "scenariosOf gapIn sk = (if sk = slot1 then [''X'', ''Z''] else [])"
  "approvedOf gapIn sc = (if sc = ''X'' then [''P''] else [])"
  "scenarioActors (cfg gapIn) sc = (if sc = ''X'' then Some [''P''] else None)"
  "isAvailableForShift (dayAvailOf gapIn ''2026-03-10'' a) sh \<longleftrightarrow> a = ''P''"
  "dayNotAllowed gapIn a d = False"
  "pmCapped gapIn st a sh \<longleftrightarrow> sh = PM \<and> a = ''P''"
  "constraintOf gapIn ''P'' = Some noPM"
  by (auto simp: gapIn_def input_defs)

lemma dupIn_facts:
  "weeks dupIn = [[]]"
  "activeDate dupIn 0 sk = (if sk = slot1 then Some ''2026-03-10'' else None)"
  "scenariosOf dupIn sk = (if sk = slot1 then [''Z'', ''Z''] else [])"
  "approvedOf dupIn sc = []"
  "scenarioActors (cfg dupIn) sc = None"
  by (auto simp: dupIn_def input_defs)

lemma ctorIn_facts:
  "weeks ctorIn = [[]]"
  "activeDate ctorIn 0 sk = (if sk = slot1 then Some ''2026-03-10'' else None)"
  "scenariosOf ctorIn sk = (if sk = slot1 then [''constructor''] else [])"
  "approvedOf ctorIn sc = []"
  "scenarioActors (cfg ctorIn) sc = None"
  by (auto simp: ctorIn_def input_defs)

lemma protoIn_facts:
  "weeks protoIn = [[]]"
  "activeDate protoIn 0 sk = (if sk = slot1 then Some ''2026-03-10'' else None)"
  "scenariosOf protoIn sk = (if sk = slot1 then [''X'', ''Z''] else [])"
  "approvedOf protoIn sc = (if sc = ''X'' then [''valueOf''] else [])"
  "scenarioActors (cfg protoIn) sc = (if sc = ''X'' then Some [''valueOf''] else None)"
  "isAvailableForShift (dayAvailOf protoIn ''2026-03-10'' a) sh \<longleftrightarrow> a = ''valueOf''"
  "dayNotAllowed protoIn a d = False"
  "pmCapped protoIn st a sh = False"
  by (auto simp: protoIn_def input_defs)

lemma unlistedIn_facts:
  "weeks unlistedIn = [[], []]"
  "actors (cfg unlistedIn) = [''A'', ''B'']"
  "i_env unlistedIn = demoEnv"
  "activeDate unlistedIn 0 sk = (if sk = slot1 then Some ''2026-03-10'' else None)"
  "activeDate unlistedIn (Suc 0) sk = (if sk = slot2 then Some ''2026-03-18'' else None)"
  "scenariosOf unlistedIn sk =
     (if sk = slot1 then [''X''] else if sk = slot2 then [''Y''] else [])"
  "approvedOf unlistedIn sc =
     (if sc = ''X'' then [''A''] else if sc = ''Y'' then [''A'', ''Q'', ''B''] else [])"
  "scenarioActors (cfg unlistedIn) sc =
     (if sc = ''X'' then Some [''A''] else if sc = ''Y'' then Some [''A'', ''Q'', ''B''] else None)"
  "isAvailableForShift (dayAvailOf unlistedIn ''2026-03-10'' a) sh \<longleftrightarrow> a = ''A''"
  "isAvailableForShift (dayAvailOf unlistedIn ''2026-03-18'' a) sh \<longleftrightarrow>
     a = ''A'' \<or> a = ''Q'' \<or> a = ''B''"
  "dayNotAllowed unlistedIn a d = False"
  "pmCapped unlistedIn st a sh = False"
  by (auto simp: unlistedIn_def input_defs)

lemma demo_slots: "allSlots demo = [mk AM ''X'', mk AM ''Y'', mk PM ''X'', mk PM ''Y'']"
  by (simp add: allSlots_def daySlots_def demo_facts SLOT_KEYS_def SHIFTS_def mk_def)

lemma capIn_slots: "allSlots capIn = [mk AM ''X'', mk PM ''X'']"
  by (simp add: allSlots_def daySlots_def capIn_facts SLOT_KEYS_def SHIFTS_def mk_def)

lemma gapIn_slots: "allSlots gapIn = [mk AM ''X'', mk AM ''Z'', mk PM ''X'', mk PM ''Z'']"
  by (simp add: allSlots_def daySlots_def gapIn_facts SLOT_KEYS_def SHIFTS_def mk_def)

lemma dupIn_slots: "allSlots dupIn = [mk AM ''Z'', mk AM ''Z'', mk PM ''Z'', mk PM ''Z'']"
  by (simp add: allSlots_def daySlots_def dupIn_facts SLOT_KEYS_def SHIFTS_def mk_def)

lemma ctorIn_slots: "allSlots ctorIn = [mk AM ''constructor'', mk PM ''constructor'']"
  by (simp add: allSlots_def daySlots_def ctorIn_facts SLOT_KEYS_def SHIFTS_def mk_def)

lemma protoIn_slots: "allSlots protoIn = [mk AM ''X'', mk AM ''Z'', mk PM ''X'', mk PM ''Z'']"
  by (simp add: allSlots_def daySlots_def protoIn_facts SLOT_KEYS_def SHIFTS_def mk_def)

lemma unlistedIn_slots:
  "allSlots unlistedIn = [mk AM ''X'', mk PM ''X'', mk2 AM ''Y'', mk2 PM ''Y'']"
  by (simp add: allSlots_def daySlots_def unlistedIn_facts SLOT_KEYS_def SHIFTS_def mk_def mk2_def
        upt_conv_Cons)


lemma precompute_inputs:
  "precompute demo = Some (eligibleCount demo)" "precompute capIn = Some (eligibleCount capIn)"
  "precompute gapIn = Some (eligibleCount gapIn)" "precompute dupIn = Some (eligibleCount dupIn)"
  "precompute unlistedIn = Some (eligibleCount unlistedIn)"
  "precompute protoIn = Some (eligibleCount protoIn)"
  "precompute ctorIn = None"
  by (simp_all add: precompute_eq demo_slots capIn_slots gapIn_slots dupIn_slots unlistedIn_slots
        protoIn_slots ctorIn_slots approvedIter_def protoKeys_def demo_facts capIn_facts
        gapIn_facts dupIn_facts unlistedIn_facts protoIn_facts ctorIn_facts)



text \<open>On \<open>capIn\<close> the strict search fails at once, and the search without the cap succeeds.\<close>

lemma capIn_attempt0: "\<exists>sl st. attempt capIn ec 0 = Some (False, sl, st)"
  unfolding attempt_def capIn_slots
  by (simp add: search_eval capIn_facts)

lemma capIn_attempt1:
  "\<exists>sl st. attempt capIn ec 1 = Some (True, sl, st) \<and> backtrackCount st = 2 \<and>
     getCell (schedule st) 0 slot1 AM ''X'' = Some ''P'' \<and>
     getCell (schedule st) 0 slot1 PM ''X'' = Some ''P''"
  unfolding attempt_def capIn_slots
  by (simp add: search_eval capIn_facts)














lemma show_nat_1: "show_nat (Suc 0) = ''1''"
  by (simp add: show_nat.simps digit_char_def)

lemma blocked_PM:
  "explainElim gapIn ''P'' (mk PM ''X'') (applied (freshState gapIn) (mk AM ''X'') ''P'') =
     Some ''PM not permitted''"
  "explainElim capIn ''P'' (mk PM ''X'') (freshState capIn) = Some ''PM not permitted''"
  by (simp_all add: explainElim_def Let_def gapIn_facts capIn_facts applied_usedIn dayPresent_fresh
        noPM_def protoKeys_def)






text \<open>
  The strict search on \<open>unlistedIn\<close>: \<open>A\<close> gets both cells of \<open>X\<close> in the first week. For the
  cells of \<open>Y\<close> the candidates are \<open>A\<close>, \<open>Q\<close>, \<open>B\<close>; the usage entry of \<open>Q\<close> is missing, the
  comparator is not consistent, and the engine of \<open>demoEnv\<close> leaves the list as it is.
\<close>

lemma unlistedIn_attempt:
  "\<exists>sl st. attempt unlistedIn ec 0 = Some (True, sl, st) \<and>
     getCell (schedule st) 0 slot1 AM ''X'' = Some ''A'' \<and>
     getCell (schedule st) 0 slot1 PM ''X'' = Some ''A'' \<and>
     getCell (schedule st) 1 slot2 AM ''Y'' = Some ''A'' \<and>
     getCell (schedule st) 1 slot2 PM ''Y'' = Some ''A''"
  unfolding attempt_def unlistedIn_slots
  by (simp add: search_eval unlistedIn_facts rankCandidates_engine applied_usage usageCount_fresh
        incr_def zeroCounts_def isNum_def demoEnv_def insertAt_def)

lemma unlistedIn_result:
  "cellOf (generateSchedule unlistedIn) 1 slot2 AM ''Y'' = Some ''A''"
  "cellOf (generateSchedule unlistedIn) 1 slot2 PM ''Y'' = Some ''A''"
  "errorsOf (generateSchedule unlistedIn) = []"
proof -
  from unlistedIn_attempt[of "eligibleCount unlistedIn"] obtain sl st where
    a: "attempt unlistedIn (eligibleCount unlistedIn) 0 = Some (True, sl, st)"
    and c: "getCell (schedule st) 1 slot2 AM ''Y'' = Some ''A''"
      "getCell (schedule st) 1 slot2 PM ''Y'' = Some ''A''"
    by blast
  from first_success[OF precompute_inputs(5) a] c
  show "cellOf (generateSchedule unlistedIn) 1 slot2 AM ''Y'' = Some ''A''"
    "cellOf (generateSchedule unlistedIn) 1 slot2 PM ''Y'' = Some ''A''"
    "errorsOf (generateSchedule unlistedIn) = []"
    by (simp_all add: cellOf_def errorsOf_def)
qed

section \<open>The claims on the example inputs\<close>







text \<open>
  On \<open>capIn\<close> the strict attempt fails and the loop goes on to level 1, whose attempt
  succeeds with a counter of 2, one per slot. A call at level 1 on the single morning slot
  with the counter at 50000 fails with the counter at 50001 and the slots untouched; the
  same call with the counter at 49999 goes on, assigns \<open>P\<close> and succeeds with the counter at
  50000. The assignment itself keeps the counter.
\<close>

theorem expansion_budget_witness:
  "failsAt capIn 0 \<and>
   relaxLoop capIn (eligibleCount capIn) 0 = relaxLoop capIn (eligibleCount capIn) 1 \<and>
   (\<exists>sl st. attempt capIn (eligibleCount capIn) 1 = Some (True, sl, st) \<and>
      backtrackCount st = 2 \<and> length (allSlots capIn) \<le> backtrackCount st \<and>
      backtrackCount st \<le> 50000) \<and>
   backtrack capIn (eligibleCount capIn) 1 [mk AM ''X''] 0
       (freshState capIn\<lparr>backtrackCount := 50000\<rparr>) =
     Some (False, [mk AM ''X''], freshState capIn\<lparr>backtrackCount := 50001\<rparr>) \<and>
   backtrack capIn (eligibleCount capIn) 1 [mk AM ''X''] 0
       (freshState capIn\<lparr>backtrackCount := 49999\<rparr>) =
     Some (True, [mk AM ''X''],
       applied (freshState capIn\<lparr>backtrackCount := 50000\<rparr>) (mk AM ''X'') ''P'') \<and>
   applyAssign (freshState capIn\<lparr>backtrackCount := 50000\<rparr>) (mk AM ''X'') ''P'' =
     Some (applied (freshState capIn\<lparr>backtrackCount := 50000\<rparr>) (mk AM ''X'') ''P'') \<and>
   backtrackCount (applied (freshState capIn\<lparr>backtrackCount := 50000\<rparr>) (mk AM ''X'') ''P'') =
     50000"
proof -
  note b = expansion_budget[of capIn "eligibleCount capIn"]
  have f: "failsAt capIn 0"
    using capIn_attempt0[of "eligibleCount capIn"] by (simp add: failsAt_def)
  from b f have n: "relaxLoop capIn (eligibleCount capIn) 0 = relaxLoop capIn (eligibleCount capIn) 1"
    by simp
  from capIn_attempt1[of "eligibleCount capIn"] obtain sl st where
    a: "attempt capIn (eligibleCount capIn) 1 = Some (True, sl, st)" by blast
  from b a have "length (allSlots capIn) \<le> backtrackCount st \<and> backtrackCount st \<le> 50000"
    by blast
  moreover from a capIn_attempt1[of "eligibleCount capIn"] have "backtrackCount st = 2" by auto
  ultimately have s: "\<exists>sl st. attempt capIn (eligibleCount capIn) 1 = Some (True, sl, st) \<and>
      backtrackCount st = 2 \<and> length (allSlots capIn) \<le> backtrackCount st \<and>
      backtrackCount st \<le> 50000"
    using a by blast
  from b have over: "backtrack capIn (eligibleCount capIn) 1 [mk AM ''X''] 0
       (freshState capIn\<lparr>backtrackCount := 50000\<rparr>) =
     Some (False, [mk AM ''X''], freshState capIn\<lparr>backtrackCount := 50001\<rparr>)"
    by simp
  have under: "backtrack capIn (eligibleCount capIn) 1 [mk AM ''X''] 0
       (freshState capIn\<lparr>backtrackCount := 49999\<rparr>) =
     Some (True, [mk AM ''X''],
       applied (freshState capIn\<lparr>backtrackCount := 50000\<rparr>) (mk AM ''X'') ''P'')"
    by (simp add: search_eval capIn_facts)
  have ap: "applyAssign (freshState capIn\<lparr>backtrackCount := 50000\<rparr>) (mk AM ''X'') ''P'' =
     Some (applied (freshState capIn\<lparr>backtrackCount := 50000\<rparr>) (mk AM ''X'') ''P'')"
    by (simp add: applyAssign_applied dayPresent_fresh capIn_facts protoKeys_def)
  from b ap have "backtrackCount (applied (freshState capIn\<lparr>backtrackCount := 50000\<rparr>)
       (mk AM ''X'') ''P'') = backtrackCount (freshState capIn\<lparr>backtrackCount := 50000\<rparr>)"
    by blast
  with f n s over under ap show ?thesis by simp
qed

text \<open>
  Claim C7. \<open>rankCandidates\<close> is to order the candidates ascending by their usage count. On
  \<open>unlistedIn\<close> the approved actor \<open>Q\<close> is missing from \<^verbatim>\<open>config.actors\<close>, so \<open>usageCount\<close> has no
  entry for it and every comparison with \<open>Q\<close> is \<^verbatim>\<open>NaN\<close>. When the search reaches the morning
  cell of \<open>Y\<close> (third visit, after the two cells of \<open>X\<close>), \<open>A\<close> holds two cells and \<open>B\<close>
  none; the candidates \<open>A\<close>, \<open>Q\<close>, \<open>B\<close> come back in this order, \<open>A\<close> is tried first, and
  the returned schedule gives \<open>A\<close> all four cells and \<open>B\<close> none.
\<close>

theorem unlisted_actor_ranked_first:
  "''Q'' \<in> set (approvedOf unlistedIn ''Y'') \<and> ''Q'' \<notin> set (actors (cfg unlistedIn)) \<and>
   attempt unlistedIn (eligibleCount unlistedIn) 0 =
     tryCandidates unlistedIn (eligibleCount unlistedIn) 0 (allSlots unlistedIn) 2 2 (mk2 AM ''Y'')
       (rankCandidates unlistedIn (eligibleCount unlistedIn)
          (getEligible unlistedIn (mk2 AM ''Y'')
             ((applied ((applied ((freshState unlistedIn)\<lparr>backtrackCount := Suc 0\<rparr>) (mk AM ''X'') ''A'')
          \<lparr>backtrackCount := Suc (Suc 0)\<rparr>) (mk PM ''X'') ''A'')\<lparr>backtrackCount := Suc (Suc (Suc 0))\<rparr>) 0)
          AM
          ((applied ((applied ((freshState unlistedIn)\<lparr>backtrackCount := Suc 0\<rparr>) (mk AM ''X'') ''A'')
          \<lparr>backtrackCount := Suc (Suc 0)\<rparr>) (mk PM ''X'') ''A'')\<lparr>backtrackCount := Suc (Suc (Suc 0))\<rparr>))
       ((applied ((applied ((freshState unlistedIn)\<lparr>backtrackCount := Suc 0\<rparr>) (mk AM ''X'') ''A'')
          \<lparr>backtrackCount := Suc (Suc 0)\<rparr>) (mk PM ''X'') ''A'')\<lparr>backtrackCount := Suc (Suc (Suc 0))\<rparr>) \<and>
   usageCount
       ((applied ((applied ((freshState unlistedIn)\<lparr>backtrackCount := Suc 0\<rparr>) (mk AM ''X'') ''A'')
          \<lparr>backtrackCount := Suc (Suc 0)\<rparr>) (mk PM ''X'') ''A'')\<lparr>backtrackCount := Suc (Suc (Suc 0))\<rparr>) ''A'' =
     Some (Num 2) \<and>
   usageCount
       ((applied ((applied ((freshState unlistedIn)\<lparr>backtrackCount := Suc 0\<rparr>) (mk AM ''X'') ''A'')
          \<lparr>backtrackCount := Suc (Suc 0)\<rparr>) (mk PM ''X'') ''A'')\<lparr>backtrackCount := Suc (Suc (Suc 0))\<rparr>) ''B'' =
     Some (Num 0) \<and>
   usageCount
       ((applied ((applied ((freshState unlistedIn)\<lparr>backtrackCount := Suc 0\<rparr>) (mk AM ''X'') ''A'')
          \<lparr>backtrackCount := Suc (Suc 0)\<rparr>) (mk PM ''X'') ''A'')\<lparr>backtrackCount := Suc (Suc (Suc 0))\<rparr>) ''Q'' =
     None \<and>
   getEligible unlistedIn (mk2 AM ''Y'')
       ((applied ((applied ((freshState unlistedIn)\<lparr>backtrackCount := Suc 0\<rparr>) (mk AM ''X'') ''A'')
          \<lparr>backtrackCount := Suc (Suc 0)\<rparr>) (mk PM ''X'') ''A'')\<lparr>backtrackCount := Suc (Suc (Suc 0))\<rparr>) 0 =
     [''A'', ''Q'', ''B''] \<and>
   rankCandidates unlistedIn (eligibleCount unlistedIn) [''A'', ''Q'', ''B''] AM
       ((applied ((applied ((freshState unlistedIn)\<lparr>backtrackCount := Suc 0\<rparr>) (mk AM ''X'') ''A'')
          \<lparr>backtrackCount := Suc (Suc 0)\<rparr>) (mk PM ''X'') ''A'')\<lparr>backtrackCount := Suc (Suc (Suc 0))\<rparr>) =
     [''A'', ''Q'', ''B''] \<and>
   cellOf (generateSchedule unlistedIn) 1 slot2 AM ''Y'' = Some ''A'' \<and>
   cellOf (generateSchedule unlistedIn) 1 slot2 PM ''Y'' = Some ''A'' \<and>
   errorsOf (generateSchedule unlistedIn) = []"
proof -
  have run: "attempt unlistedIn (eligibleCount unlistedIn) 0 =
     tryCandidates unlistedIn (eligibleCount unlistedIn) 0 (allSlots unlistedIn) 2 2 (mk2 AM ''Y'')
       (rankCandidates unlistedIn (eligibleCount unlistedIn)
          (getEligible unlistedIn (mk2 AM ''Y'')
             ((applied ((applied ((freshState unlistedIn)\<lparr>backtrackCount := Suc 0\<rparr>) (mk AM ''X'') ''A'')
          \<lparr>backtrackCount := Suc (Suc 0)\<rparr>) (mk PM ''X'') ''A'')\<lparr>backtrackCount := Suc (Suc (Suc 0))\<rparr>) 0)
          AM
          ((applied ((applied ((freshState unlistedIn)\<lparr>backtrackCount := Suc 0\<rparr>) (mk AM ''X'') ''A'')
          \<lparr>backtrackCount := Suc (Suc 0)\<rparr>) (mk PM ''X'') ''A'')\<lparr>backtrackCount := Suc (Suc (Suc 0))\<rparr>))
       ((applied ((applied ((freshState unlistedIn)\<lparr>backtrackCount := Suc 0\<rparr>) (mk AM ''X'') ''A'')
          \<lparr>backtrackCount := Suc (Suc 0)\<rparr>) (mk PM ''X'') ''A'')\<lparr>backtrackCount := Suc (Suc (Suc 0))\<rparr>)"
    unfolding attempt_def unlistedIn_slots
    by (simp add: search_eval unlistedIn_facts rankCandidates_engine applied_usage
          usageCount_fresh incr_def zeroCounts_def isNum_def demoEnv_def insertAt_def)
  have rest: "usageCount
       ((applied ((applied ((freshState unlistedIn)\<lparr>backtrackCount := Suc 0\<rparr>) (mk AM ''X'') ''A'')
          \<lparr>backtrackCount := Suc (Suc 0)\<rparr>) (mk PM ''X'') ''A'')\<lparr>backtrackCount := Suc (Suc (Suc 0))\<rparr>) ''A'' =
     Some (Num 2) \<and>
   usageCount
       ((applied ((applied ((freshState unlistedIn)\<lparr>backtrackCount := Suc 0\<rparr>) (mk AM ''X'') ''A'')
          \<lparr>backtrackCount := Suc (Suc 0)\<rparr>) (mk PM ''X'') ''A'')\<lparr>backtrackCount := Suc (Suc (Suc 0))\<rparr>) ''B'' =
     Some (Num 0) \<and>
   usageCount
       ((applied ((applied ((freshState unlistedIn)\<lparr>backtrackCount := Suc 0\<rparr>) (mk AM ''X'') ''A'')
          \<lparr>backtrackCount := Suc (Suc 0)\<rparr>) (mk PM ''X'') ''A'')\<lparr>backtrackCount := Suc (Suc (Suc 0))\<rparr>) ''Q'' =
     None \<and>
   getEligible unlistedIn (mk2 AM ''Y'')
       ((applied ((applied ((freshState unlistedIn)\<lparr>backtrackCount := Suc 0\<rparr>) (mk AM ''X'') ''A'')
          \<lparr>backtrackCount := Suc (Suc 0)\<rparr>) (mk PM ''X'') ''A'')\<lparr>backtrackCount := Suc (Suc (Suc 0))\<rparr>) 0 =
     [''A'', ''Q'', ''B''] \<and>
   rankCandidates unlistedIn (eligibleCount unlistedIn) [''A'', ''Q'', ''B''] AM
       ((applied ((applied ((freshState unlistedIn)\<lparr>backtrackCount := Suc 0\<rparr>) (mk AM ''X'') ''A'')
          \<lparr>backtrackCount := Suc (Suc 0)\<rparr>) (mk PM ''X'') ''A'')\<lparr>backtrackCount := Suc (Suc (Suc 0))\<rparr>) =
     [''A'', ''Q'', ''B'']"
    by (simp add: unlistedIn_facts getEligible_def eligible_iff rankCandidates_engine
          applied_usage applied_usedIn applied_dayPresent dayPresent_fresh usageCount_fresh
          incr_def zeroCounts_def isNum_def demoEnv_def insertAt_def protoKeys_def)
  from run rest unlistedIn_result show ?thesis
    by (simp only: unlistedIn_facts) simp
qed



text \<open>The fallback step for the evening slot of \<open>X\<close> on \<open>capIn\<close>, from the fresh state.\<close>

theorem fallback_diagnostic_witness:
  "fbScenario capIn (eligibleCount capIn) 0 slot1 ''2026-03-10'' PM ''X'' (freshState capIn, []) =
     Some (freshState capIn, [diagnosticOf capIn (mk PM ''X'') (freshState capIn)]) \<and>
   e_approvedActors (diagnosticOf capIn (mk PM ''X'') (freshState capIn)) = [''P''] \<and>
   e_eliminations (diagnosticOf capIn (mk PM ''X'') (freshState capIn)) = [(''P'', ''PM not permitted'')] \<and>
   filledCountOf capIn (mk PM ''X'') (freshState capIn) = 0 \<and>
   e_suggestion (diagnosticOf capIn (mk PM ''X'') (freshState capIn)) =
     ''All 1 approved actor blocked. Approve more actors for X or adjust availability.''"
  using fallback_diagnostic_covers_approved[where I = capIn and ec = "eligibleCount capIn"
      and wi = 0 and sk = slot1 and d = "''2026-03-10''" and sh = PM and sc = "''X''"
      and st = "freshState capIn" and errs = "[]" and st' = "freshState capIn"
      and errs' = "[diagnosticOf capIn (mk PM ''X'') (freshState capIn)]"]
  by (simp add: fbScenario_def Let_def getEligible_def eligible_iff rankCandidates_def js_sort_def
        capIn_facts mk_fold diagnosticOf_def filledCountOf_def eliminationsOf_def
        suggestionText_def blocked_PM show_nat_1 plural_def)

end
